theory Spec2Isabelle
  imports Main "HOL-Library.Word" "HOL-Library.Sublist"
begin

section \<open>Strings of the server\<close>

text \<open>
  A JavaScript string is a sequence of 16-bit code units; \<open>text.length\<close> counts code
  units and the regular expressions of \<open>server/index.js\<close> (none carries the \<open>u\<close> flag)
  match code units. A string literal of the source that is plain ASCII is written with
  \<open>js\<close>.
\<close>

type_synonym jstring = "16 word list"

definition js :: "string \<Rightarrow> jstring" where
  "js s = map of_char s"

definition SP :: "16 word" where
  "SP = 0x20"

section \<open>cleanText (server/index.js, lines 49-75)\<close>

text \<open>
  \<open>s.replace(/lit/g, r)\<close> for a literal pattern: the scan goes left to right; where the
  pattern matches, the replacement is emitted and the scan resumes behind the match,
  otherwise one code unit is copied.
\<close>

function replaceAll :: "jstring \<Rightarrow> jstring \<Rightarrow> jstring \<Rightarrow> jstring" where
  "replaceAll p r [] = []"
| "replaceAll p r (c # cs) =
     (if prefix p (c # cs) then r @ replaceAll p r (drop (length p - 1) cs)
      else c # replaceAll p r cs)"
  by pat_completeness auto
termination
  by (relation "measure (\<lambda>(p, r, s). length s)") auto

text \<open>The five mis-decoded sequences of lines 55-59, as the code units of the source file.\<close>

definition pat_degrees :: jstring where
  "pat_degrees = [0xC2, 0xB0]"

definition pat_angle :: jstring where
  "pat_angle = [0xE2, 0x2C6, 0x20]"

definition pat_triangle :: jstring where
  "pat_triangle = [0xE2, 0x2C6, 0x2020]"

definition pat_pi :: jstring where
  "pat_pi = [0xCF, 0x20AC]"

definition pat_sqrt :: jstring where
  "pat_sqrt = [0xE2, 0x2C6, 0x161]"

text \<open>The character classes of lines 61-65.\<close>

definition is_control :: "16 word \<Rightarrow> bool" where
  "is_control c \<longleftrightarrow> c \<le> 0x1F \<or> (0x7F \<le> c \<and> c \<le> 0x9F)"

definition is_general_punctuation :: "16 word \<Rightarrow> bool" where
  "is_general_punctuation c \<longleftrightarrow> 0x2000 \<le> c \<and> c \<le> 0x206F"

definition is_super_subscript :: "16 word \<Rightarrow> bool" where
  "is_super_subscript c \<longleftrightarrow> 0x2070 \<le> c \<and> c \<le> 0x209F"

definition is_currency :: "16 word \<Rightarrow> bool" where
  "is_currency c \<longleftrightarrow> 0x20A0 \<le> c \<and> c \<le> 0x20CF"

definition is_letterlike :: "16 word \<Rightarrow> bool" where
  "is_letterlike c \<longleftrightarrow> 0x2100 \<le> c \<and> c \<le> 0x214F"

text \<open>\<open>s.replace(/[class]/g, ' ')\<close>: every code unit of the class becomes one space.\<close>

definition replaceClass :: "(16 word \<Rightarrow> bool) \<Rightarrow> jstring \<Rightarrow> jstring" where
  "replaceClass cls s = map (\<lambda>c. if cls c then SP else c) s"

text \<open>
  The class \<open>\s\<close> of ECMAScript, which is also what \<open>trim\<close> removes: tab, line feed,
  vertical tab, form feed, carriage return, space, no-break space, U+1680, U+2000 to
  U+200A, the line and paragraph separators, U+202F, U+205F, U+3000 and U+FEFF.
\<close>

definition is_ws :: "16 word \<Rightarrow> bool" where
  "is_ws c \<longleftrightarrow> (0x09 \<le> c \<and> c \<le> 0x0D) \<or> c = 0x20 \<or> c = 0xA0 \<or> c = 0x1680
     \<or> (0x2000 \<le> c \<and> c \<le> 0x200A) \<or> c = 0x2028 \<or> c = 0x2029 \<or> c = 0x202F
     \<or> c = 0x205F \<or> c = 0x3000 \<or> c = 0xFEFF"

text \<open>\<open>s.replace(/\s+/g, ' ')\<close>: every maximal run of white space becomes one space.\<close>

function collapse_ws :: "jstring \<Rightarrow> jstring" where
  "collapse_ws [] = []"
| "collapse_ws (c # cs) =
     (if is_ws c then SP # collapse_ws (dropWhile is_ws cs) else c # collapse_ws cs)"
  by pat_completeness auto
termination
  by (relation "measure length") (auto simp: length_dropWhile_le less_Suc_eq_le)

definition trim :: "jstring \<Rightarrow> jstring" where
  "trim s = rev (dropWhile is_ws (rev (dropWhile is_ws s)))"

text \<open>Lines 53-68: the chain of replacements, the collapse of white space and the trim.\<close>

definition cleaned :: "jstring \<Rightarrow> jstring" where
  "cleaned text =
     trim (collapse_ws
       (replaceClass is_letterlike
       (replaceClass is_currency
       (replaceClass is_super_subscript
       (replaceClass is_general_punctuation
       (replaceClass is_control
       (replaceAll pat_sqrt (js ''sqrt '')
       (replaceAll pat_pi (js ''pi '')
       (replaceAll pat_triangle (js ''triangle '')
       (replaceAll pat_angle (js ''angle '')
       (replaceAll pat_degrees (js '' degrees '') text)))))))))))"

text \<open>
  Line 50 returns the empty string for a falsy argument, which for a string is the empty
  one; lines 71-72 reject a result of fewer than 10 code units and cut one of more than
  8000.
\<close>

definition cleanText :: "jstring \<Rightarrow> jstring" where
  "cleanText text =
     (if text = [] then []
      else if length (cleaned text) < 10 then []
      else if length (cleaned text) > 8000 then take 8000 (cleaned text)
      else cleaned text)"

section \<open>chunkText (server/index.js, lines 78-90)\<close>

text \<open>
  \<open>text.slice(b, e)\<close>: a negative index counts from the end, and both indices are clamped
  to the string.
\<close>

definition slice_index :: "nat \<Rightarrow> int \<Rightarrow> nat" where
  "slice_index len k = (if k < 0 then nat (max (int len + k) 0) else min (nat k) len)"

definition slice :: "jstring \<Rightarrow> int \<Rightarrow> int \<Rightarrow> jstring" where
  "slice s b e = (let from = slice_index (length s) b; to = slice_index (length s) e
                  in take (to - from) (drop from s))"

text \<open>
  The \<open>while\<close> loop, with the start offset \<open>i\<close> and the chunks pushed so far. The loop
  need not end, so it is a partial function: \<open>None\<close> is a loop that never returns.
\<close>

partial_function (option) chunkText_loop ::
  "jstring \<Rightarrow> int \<Rightarrow> int \<Rightarrow> jstring list \<Rightarrow> jstring list option" where
  "chunkText_loop text maxLen i chunks =
     (if i < int (length text) then
        (let chunk = slice text i (i + maxLen);
             cleanedChunk = cleanText chunk
         in chunkText_loop text maxLen (i + (maxLen - 200))
              (if cleanedChunk \<noteq> [] then chunks @ [cleanedChunk] else chunks))
      else Some chunks)"

declare chunkText_loop.simps [code]

definition chunkText :: "jstring \<Rightarrow> int \<Rightarrow> jstring list option" where
  "chunkText text maxLen = chunkText_loop text maxLen 0 []"

section \<open>Remote services, the file system and the events of a request\<close>

text \<open>
  A thrown JavaScript error with its \<open>message\<close>. A \<open>TypeError\<close> is what reading a property
  of \<open>undefined\<close> raises; its text is the engine's and names the property that was read.
\<close>

datatype error = Error (message: jstring) | TypeError (message: jstring)

definition undefined_read :: "string \<Rightarrow> error" where
  "undefined_read property =
     TypeError (js (''Cannot read properties of undefined (reading '' @ [CHR 0x27] @ property
                    @ [CHR 0x27] @ '')''))"

type_synonym bytes = "8 word list"

text \<open>The metadata of a vector record (lines 252-258) and the record itself (lines 249-259).\<close>

record metadata =
  md_text :: "jstring option"
  md_source :: jstring
  chunk_index :: nat
  session_id :: jstring
  uploaded_at :: jstring

record 'n vector_record =
  vec_id :: jstring
  vec_values :: "'n list"
  vec_metadata :: metadata

text \<open>The argument of \<open>index.query\<close>, and a match and the response it resolves to.\<close>

record 'n query_request =
  q_vector :: "'n list"
  q_topK :: int
  q_includeMetadata :: bool
  q_filter_session_id :: jstring

record match =
  match_id :: jstring
  match_metadata :: "metadata option"

record query_response =
  matches :: "match list option"

text \<open>
  What \<open>batchEmbedContents\<close> resolves to: the field \<open>embeddings\<close> may be absent, and an
  entry of the array may be \<open>null\<close> (\<open>None\<close>); otherwise an entry carries its \<open>values\<close>.
  What \<open>embedContent\<close> resolves to: the field \<open>embedding\<close> with its \<open>values\<close>, or no such
  field.
\<close>

record 'n batch_response =
  embeddings_of :: "'n list option list option"

record 'n single_response =
  embedding_of :: "'n list option"

text \<open>Every call that leaves the process is an event of the request, in the order made.\<close>

datatype 'n event =
    BatchEmbedContents "jstring list"
  | EmbedContent jstring
  | Delay nat
  | IndexQuery "'n query_request"
  | IndexDeleteMany "jstring list"
  | IndexUpsert "'n vector_record list"
  | ReadFile jstring
  | Unlink jstring
  | GenerateContent jstring

text \<open>
  The collaborators of the server are parameters. Each answers a call by rejecting with an
  error (\<open>Inl\<close>) or by resolving to a value (\<open>Inr\<close>, where \<open>None\<close> is \<open>undefined\<close>), and may
  answer from everything that happened before: it reads the events so far.
\<close>

record 'n env =
  batchEmbedContents :: "'n event list \<Rightarrow> jstring list \<Rightarrow> error + 'n batch_response option"
  embedContent :: "'n event list \<Rightarrow> jstring \<Rightarrow> error + 'n single_response option"
  index_query :: "'n event list \<Rightarrow> 'n query_request \<Rightarrow> error + query_response"
  index_deleteMany :: "'n event list \<Rightarrow> jstring list \<Rightarrow> error + unit"
  index_upsert :: "'n event list \<Rightarrow> 'n vector_record list \<Rightarrow> error + unit"
  fs_readFile :: "'n event list \<Rightarrow> jstring \<Rightarrow> error + bytes"
  fs_unlink :: "'n event list \<Rightarrow> jstring \<Rightarrow> error + unit"
  generateContent :: "'n event list \<Rightarrow> jstring \<Rightarrow> error + jstring"
  pdfParse :: "bytes \<Rightarrow> error + jstring option"
  path_resolve :: "jstring \<Rightarrow> jstring"
  now_iso :: "'n event list \<Rightarrow> nat \<Rightarrow> jstring"

text \<open>
  An asynchronous computation takes the events so far and returns its completion, thrown
  error or value, with the events extended.
\<close>

type_synonym ('n, 'a) io = "'n event list \<Rightarrow> (error + 'a) \<times> 'n event list"

definition return_io :: "'a \<Rightarrow> ('n, 'a) io" where
  "return_io a log = (Inr a, log)"

definition throw_io :: "error \<Rightarrow> ('n, 'a) io" where
  "throw_io e log = (Inl e, log)"

definition bind_io :: "('n, 'a) io \<Rightarrow> ('a \<Rightarrow> ('n, 'b) io) \<Rightarrow> ('n, 'b) io" where
  "bind_io m f log = (case m log of (Inl e, log') \<Rightarrow> (Inl e, log') | (Inr a, log') \<Rightarrow> f a log')"

definition catch_io :: "('n, 'a) io \<Rightarrow> (error \<Rightarrow> ('n, 'a) io) \<Rightarrow> ('n, 'a) io" where
  "catch_io m h log = (case m log of (Inl e, log') \<Rightarrow> h e log' | (Inr a, log') \<Rightarrow> (Inr a, log'))"

definition call :: "('n event list \<Rightarrow> error + 'a) \<Rightarrow> 'n event \<Rightarrow> ('n, 'a) io" where
  "call answer ev log = (answer log, log @ [ev])"

section \<open>embedTexts (server/index.js, lines 93-160)\<close>

text \<open>
  Lines 133-140, one pass of the inner \<open>for\<close>: the single-item call, whose value is pushed;
  a rejection, or a value without \<open>embedding\<close>, is caught and the text is skipped.
\<close>

fun embed_single ::
  "'n env \<Rightarrow> 'n event list \<times> 'n list list \<Rightarrow> jstring \<Rightarrow> 'n event list \<times> 'n list list" where
  "embed_single env (log, allEmbeddings) text =
     (case embedContent env log text of
        Inr (Some singleResult) \<Rightarrow>
          (case embedding_of singleResult of
             Some vals \<Rightarrow> (log @ [EmbedContent text], allEmbeddings @ [vals])
           | None \<Rightarrow> (log @ [EmbedContent text], allEmbeddings))
      | Inr None \<Rightarrow> (log @ [EmbedContent text], allEmbeddings)
      | Inl singleError \<Rightarrow> (log @ [EmbedContent text], allEmbeddings))"

text \<open>Lines 132-141: \<open>for (const text of batch)\<close>.\<close>

definition embed_individually ::
  "'n env \<Rightarrow> 'n event list \<times> 'n list list \<Rightarrow> jstring list \<Rightarrow> 'n event list \<times> 'n list list" where
  "embed_individually env st batch = foldl (embed_single env) st batch"

text \<open>
  Lines 114-142, the \<open>try\<close> statement of one batch. The \<open>catch\<close> is entered when the call
  rejects, when it resolves to \<open>undefined\<close> (reading \<open>result.embeddings\<close> raises) and when
  an entry of a non-empty array is \<open>null\<close> (reading \<open>e.values\<close> raises, before anything is
  pushed). An absent or empty \<open>embeddings\<close> takes the \<open>else\<close> of line 126, which warns.
\<close>

definition embed_batch ::
  "'n env \<Rightarrow> 'n event list \<times> 'n list list \<Rightarrow> jstring list \<Rightarrow> 'n event list \<times> 'n list list" where
  "embed_batch env st batch =
     (case st of (log, allEmbeddings) \<Rightarrow>
        (let log1 = log @ [BatchEmbedContents batch] in
         case batchEmbedContents env log batch of
           Inl batchError \<Rightarrow> embed_individually env (log1, allEmbeddings) batch
         | Inr None \<Rightarrow> embed_individually env (log1, allEmbeddings) batch
         | Inr (Some result) \<Rightarrow>
             (case embeddings_of result of
                None \<Rightarrow> (log1, allEmbeddings)
              | Some es \<Rightarrow>
                  if length es > 0 then
                    (case those es of
                       None \<Rightarrow> embed_individually env (log1, allEmbeddings) batch
                     | Some vs \<Rightarrow> (log1, allEmbeddings @ vs))
                  else (log1, allEmbeddings))))"

text \<open>Lines 110-148: the loop over the batches of 10, with the pause of lines 145-147.\<close>

function embed_loop ::
  "'n env \<Rightarrow> jstring list \<Rightarrow> nat \<Rightarrow> 'n event list \<times> 'n list list \<Rightarrow> 'n event list \<times> 'n list list" where
  "embed_loop env cleanedTexts i st =
     (if i < length cleanedTexts then
        (let batch = take 10 (drop i cleanedTexts);
             st' = embed_batch env st batch;
             st'' = (if i + 10 < length cleanedTexts then (fst st' @ [Delay 100], snd st') else st')
         in embed_loop env cleanedTexts (i + 10) st'')
      else st)"
  by pat_completeness auto
termination
  by (relation "measure (\<lambda>(env, cleanedTexts, i, st). length cleanedTexts - i)") auto

declare embed_loop.simps [simp del]

text \<open>
  Lines 94-159. The outer \<open>catch\<close> logs and throws the same error again, so the error of
  line 101 is the completion.
\<close>

definition embedTexts :: "'n env \<Rightarrow> jstring list \<Rightarrow> ('n, 'n list list) io" where
  "embedTexts env texts log =
     (let cleanedTexts = filter (\<lambda>text. length text > 0) (map cleanText texts) in
      if length cleanedTexts = 0 then
        (Inl (Error (js ''No valid text chunks after cleaning'')), log)
      else (case embed_loop env cleanedTexts 0 (log, []) of
              (log', allEmbeddings) \<Rightarrow> (Inr allEmbeddings, log')))"

section \<open>deleteSessionVectors (server/index.js, lines 163-195)\<close>

text \<open>Lines 181-185: the ids are deleted in batches of 1000; a rejection leaves the loop.\<close>

function delete_loop :: "'n env \<Rightarrow> jstring list \<Rightarrow> nat \<Rightarrow> ('n, unit) io" where
  "delete_loop env vectorIds i log =
     (if i < length vectorIds then
        (let batch = take 1000 (drop i vectorIds) in
         case index_deleteMany env log batch of
           Inl e \<Rightarrow> (Inl e, log @ [IndexDeleteMany batch])
         | Inr u \<Rightarrow> delete_loop env vectorIds (i + 1000) (log @ [IndexDeleteMany batch]))
      else (Inr (), log))"
  by pat_completeness auto
termination
  by (relation "measure (\<lambda>(env, vectorIds, i, log). length vectorIds - i)") auto

declare delete_loop.simps [simp del]

definition session_query :: "jstring \<Rightarrow> ('n::zero) query_request" where
  "session_query sessionId =
     \<lparr>q_vector = replicate 768 0, q_topK = 10000, q_includeMetadata = True,
      q_filter_session_id = sessionId\<rparr>"

text \<open>Lines 165-190, the body of the \<open>try\<close>.\<close>

definition deleteSessionVectors_try :: "('n::zero) env \<Rightarrow> jstring \<Rightarrow> ('n, unit) io" where
  "deleteSessionVectors_try env sessionId =
     bind_io (call (\<lambda>log. index_query env log (session_query sessionId))
                (IndexQuery (session_query sessionId)))
       (\<lambda>queryResponse.
          case matches queryResponse of
            None \<Rightarrow> return_io ()
          | Some ms \<Rightarrow>
              if length ms > 0 then delete_loop env (map match_id ms) 0
              else return_io ())"

text \<open>Lines 191-194: the \<open>catch\<close> logs the error and does not throw it.\<close>

definition deleteSessionVectors :: "('n::zero) env \<Rightarrow> jstring \<Rightarrow> ('n, unit) io" where
  "deleteSessionVectors env sessionId =
     catch_io (deleteSessionVectors_try env sessionId) (\<lambda>error. return_io ())"

section \<open>The route /api/upload (server/index.js, lines 200-292)\<close>

text \<open>
  The request as the handler reads it: \<open>req.file\<close>, set by the upload middleware once the
  file is stored under its temporary path, and \<open>req.body.sessionId\<close>.
\<close>

record uploaded_file =
  file_path :: jstring
  originalname :: jstring

record upload_request =
  req_file :: "uploaded_file option"
  body_sessionId :: "jstring option"

text \<open>The JSON bodies the routes answer with, and a response with its status.\<close>

record source_ref =
  src_source :: jstring
  src_chunk_index :: nat
  src_session_id :: jstring

datatype body =
    ErrorBody jstring
  | UploadedBody nat jstring
  | AnswerBody jstring "source_ref list" "jstring option"

datatype response = Json nat body

text \<open>The decimal digits of an index, as a template literal prints a number.\<close>

function decimal :: "nat \<Rightarrow> jstring" where
  "decimal n = (if n < 10 then [0x30 + of_nat n] else decimal (n div 10) @ [0x30 + of_nat (n mod 10)])"
  by pat_completeness auto
termination
  by (relation "measure id") auto

declare decimal.simps [simp del]

text \<open>\<open>xs[i]\<close>, which is \<open>undefined\<close> out of range.\<close>

definition at_index :: "'a list \<Rightarrow> nat \<Rightarrow> 'a option" where
  "at_index xs i = (if i < length xs then Some (xs ! i) else None)"

text \<open>
  Lines 248-259. The clock is read once for every record; \<open>now i\<close> is what it shows when
  record \<open>i\<close> is built.
\<close>

definition build_vectors ::
  "(nat \<Rightarrow> jstring) \<Rightarrow> jstring \<Rightarrow> jstring \<Rightarrow> jstring list \<Rightarrow> 'n list list \<Rightarrow> 'n vector_record list" where
  "build_vectors now sessionId original validChunks embeddings =
     (let minLength = min (length embeddings) (length validChunks) in
      map (\<lambda>(i, emb).
             \<lparr>vec_id = sessionId @ js ''_'' @ decimal i,
              vec_values = emb,
              vec_metadata =
                \<lparr>md_text = at_index validChunks i,
                 md_source = original,
                 chunk_index = i,
                 session_id = sessionId,
                 uploaded_at = now i\<rparr>\<rparr>)
          (enumerate 0 (take minLength embeddings)))"

text \<open>Lines 262-266: the records are written in batches of 100; a rejection leaves the loop.\<close>

function upsert_loop :: "'n env \<Rightarrow> 'n vector_record list \<Rightarrow> nat \<Rightarrow> ('n, unit) io" where
  "upsert_loop env vectors i log =
     (if i < length vectors then
        (let batch = take 100 (drop i vectors) in
         case index_upsert env log batch of
           Inl e \<Rightarrow> (Inl e, log @ [IndexUpsert batch])
         | Inr u \<Rightarrow> upsert_loop env vectors (i + 100) (log @ [IndexUpsert batch]))
      else (Inr (), log))"
  by pat_completeness auto
termination
  by (relation "measure (\<lambda>(env, vectors, i, log). length vectors - i)") auto

declare upsert_loop.simps [simp del]

definition unlink :: "'n env \<Rightarrow> jstring \<Rightarrow> ('n, unit) io" where
  "unlink env filePath = call (\<lambda>log. fs_unlink env log filePath) (Unlink filePath)"

text \<open>Lines 233-270: from the chunks to the answer.\<close>

definition upload_chunks ::
  "'n env \<Rightarrow> uploaded_file \<Rightarrow> jstring \<Rightarrow> jstring \<Rightarrow> jstring list \<Rightarrow> ('n, response) io" where
  "upload_chunks env f sessionId filePath chunks =
     (let validChunks = filter (\<lambda>chunk. chunk \<noteq> [] \<and> trim chunk \<noteq> []) chunks in
      if length validChunks = 0 then
        bind_io (unlink env filePath)
          (\<lambda>u. return_io (Json 400
                  (ErrorBody (js ''PDF contains no processable text content after cleaning.''))))
      else
        bind_io (embedTexts env validChunks)
          (\<lambda>embeddings log.
             (let vectors = build_vectors (now_iso env log) sessionId (originalname f)
                              validChunks embeddings
              in bind_io (upsert_loop env vectors 0)
                   (\<lambda>u. bind_io (unlink env filePath)
                      (\<lambda>u. return_io (Json 200 (UploadedBody (length vectors) sessionId))))
                   log)))"

text \<open>
  Lines 215-229: the stale vectors are deleted, the file is read and parsed, and the text
  is cut into chunks of 1000. \<open>None\<close> is a handler that never answers, which is what a
  \<open>chunkText\<close> that does not return would give.
\<close>

definition upload_session ::
  "('n::zero) env \<Rightarrow> uploaded_file \<Rightarrow> jstring \<Rightarrow> 'n event list
     \<Rightarrow> ((error + response) \<times> 'n event list) option" where
  "upload_session env f sessionId log =
     (let filePath = path_resolve env (file_path f) in
      case bind_io (deleteSessionVectors env sessionId)
             (\<lambda>u. bind_io (call (\<lambda>log. fs_readFile env log filePath) (ReadFile filePath))
                (\<lambda>data log. (pdfParse env data, log))) log of
        (Inl e, log1) \<Rightarrow> Some (Inl e, log1)
      | (Inr pdfText, log1) \<Rightarrow>
          (let text = (case pdfText of None \<Rightarrow> [] | Some t \<Rightarrow> t) in
           if trim text = [] then
             Some (bind_io (unlink env filePath)
                     (\<lambda>u. return_io (Json 400
                        (ErrorBody (js ''PDF contains no readable text content.'')))) log1)
           else
             (case chunkText text 1000 of
                None \<Rightarrow> None
              | Some chunks \<Rightarrow> Some (upload_chunks env f sessionId filePath chunks log1))))"

text \<open>Lines 203-210, the two checks of the request, before the rest of the \<open>try\<close>.\<close>

definition upload_try ::
  "('n::zero) env \<Rightarrow> upload_request \<Rightarrow> 'n event list
     \<Rightarrow> ((error + response) \<times> 'n event list) option" where
  "upload_try env req log =
     (case req_file req of
        None \<Rightarrow> Some (Inr (Json 400 (ErrorBody (js ''No file uploaded''))), log)
      | Some f \<Rightarrow>
          (case body_sessionId req of
             None \<Rightarrow> Some (Inr (Json 400 (ErrorBody (js ''Missing session ID''))), log)
           | Some sessionId \<Rightarrow>
               if sessionId = [] then
                 Some (Inr (Json 400 (ErrorBody (js ''Missing session ID''))), log)
               else upload_session env f sessionId log))"

text \<open>\<open>err.message || "An internal server error occurred."\<close>\<close>

definition errorMessage :: "error \<Rightarrow> jstring" where
  "errorMessage err =
     (if message err = [] then js ''An internal server error occurred.'' else message err)"

text \<open>
  Lines 272-291, the \<open>catch\<close>: when the request has a file with a path, the file is
  unlinked, an error of the unlinking being logged only, and the answer is a 500.
\<close>

definition upload_catch ::
  "'n env \<Rightarrow> upload_request \<Rightarrow> error \<Rightarrow> 'n event list \<Rightarrow> response \<times> 'n event list" where
  "upload_catch env req err log =
     (case req_file req of
        None \<Rightarrow> (Json 500 (ErrorBody (errorMessage err)), log)
      | Some f \<Rightarrow>
          if file_path f = [] then (Json 500 (ErrorBody (errorMessage err)), log)
          else (Json 500 (ErrorBody (errorMessage err)),
                snd (unlink env (path_resolve env (file_path f)) log)))"

definition upload_route ::
  "('n::zero) env \<Rightarrow> upload_request \<Rightarrow> 'n event list \<Rightarrow> (response \<times> 'n event list) option" where
  "upload_route env req log =
     (case upload_try env req log of
        None \<Rightarrow> None
      | Some (Inr res, log') \<Rightarrow> Some (res, log')
      | Some (Inl err, log') \<Rightarrow> Some (upload_catch env req err log'))"

section \<open>The route /api/ask (server/index.js, lines 295-360)\<close>

record ask_request =
  question :: "jstring option"
  ask_sessionId :: "jstring option"
  topK :: "int option"

definition join :: "jstring \<Rightarrow> jstring list \<Rightarrow> jstring" where
  "join sep xs = (case xs of [] \<Rightarrow> [] | y # ys \<Rightarrow> y @ concat (map (\<lambda>z. sep @ z) ys))"

definition no_information :: jstring where
  "no_information = js (''I couldn't find any relevant information in the current document. '' @
     ''Please make sure you have uploaded a PDF document for this session.'')"

definition systemInstruction :: jstring where
  "systemInstruction = js (''You are a helpful assistant. Use the provided context from the '' @
     ''uploaded PDF document to answer the question. If the answer is not contained within '' @
     ''the context, say that you cannot find the answer in the provided document. Answer '' @
     ''concisely and accurately based only on the document content.'')"

text \<open>
  Lines 334-353: the texts of the matches are joined (an absent text joins as the empty
  string, a match without metadata raises), the prompt is built and the generation
  service is called.
\<close>

definition answer_from ::
  "'n env \<Rightarrow> jstring \<Rightarrow> jstring \<Rightarrow> match list \<Rightarrow> ('n, response) io" where
  "answer_from env q sessionId ms =
     (case those (map match_metadata ms) of
        None \<Rightarrow> throw_io (undefined_read ''text'')
      | Some mds \<Rightarrow>
          (let contexts = join ([0x0A] @ js ''---'' @ [0x0A])
                            (map (\<lambda>md. case md_text md of None \<Rightarrow> [] | Some t \<Rightarrow> t) mds);
               userPrompt = js ''Context from the uploaded document:'' @ [0x0A] @ contexts
                            @ [0x0A, 0x0A] @ js ''Question: '' @ q;
               fullPrompt = systemInstruction @ [0x0A, 0x0A] @ userPrompt
           in bind_io (call (\<lambda>log. generateContent env log fullPrompt) (GenerateContent fullPrompt))
                (\<lambda>answer. return_io (Json 200
                   (AnswerBody answer
                      (map (\<lambda>md. \<lparr>src_source = md_source md, src_chunk_index = chunk_index md,
                                   src_session_id = session_id md\<rparr>) mds)
                      (Some sessionId))))))"

text \<open>Lines 297-353, the body of the \<open>try\<close>.\<close>

definition ask_try :: "'n env \<Rightarrow> ask_request \<Rightarrow> ('n, response) io" where
  "ask_try env req =
     (case question req of
        None \<Rightarrow> return_io (Json 400 (ErrorBody (js ''Missing question'')))
      | Some q \<Rightarrow>
          if q = [] then return_io (Json 400 (ErrorBody (js ''Missing question'')))
          else
            (case ask_sessionId req of
               None \<Rightarrow> return_io (Json 400 (ErrorBody (js ''Missing session ID'')))
             | Some sessionId \<Rightarrow>
                 if sessionId = [] then return_io (Json 400 (ErrorBody (js ''Missing session ID'')))
                 else
                   (let cleanedQuestion = cleanText q in
                    if cleanedQuestion = [] then
                      return_io (Json 400 (ErrorBody (js ''Question contains no valid content'')))
                    else
                      bind_io (call (\<lambda>log. embedContent env log cleanedQuestion)
                                 (EmbedContent cleanedQuestion))
                        (\<lambda>qEmbResp.
                           case qEmbResp of
                             None \<Rightarrow> throw_io (undefined_read ''embedding'')
                           | Some r \<Rightarrow>
                               (case embedding_of r of
                                  None \<Rightarrow> throw_io (undefined_read ''values'')
                                | Some qEmb \<Rightarrow>
                                    (let q_req = \<lparr>q_vector = qEmb,
                                                  q_topK = (case topK req of None \<Rightarrow> 4 | Some k \<Rightarrow> k),
                                                  q_includeMetadata = True,
                                                  q_filter_session_id = sessionId\<rparr>
                                     in bind_io (call (\<lambda>log. index_query env log q_req) (IndexQuery q_req))
                                          (\<lambda>queryResp.
                                             (let ms = (case matches queryResp of None \<Rightarrow> [] | Some ms \<Rightarrow> ms) in
                                              if length ms = 0 then
                                                return_io (Json 200 (AnswerBody no_information [] None))
                                              else answer_from env q sessionId ms))))))))"

text \<open>Lines 355-359: the \<open>catch\<close> answers with a 500.\<close>

definition ask_route :: "'n env \<Rightarrow> ask_request \<Rightarrow> 'n event list \<Rightarrow> response \<times> 'n event list" where
  "ask_route env req log =
     (case ask_try env req log of
        (Inr res, log') \<Rightarrow> (res, log')
      | (Inl err, log') \<Rightarrow> (Json 500 (ErrorBody (errorMessage err)), log'))"

section \<open>Two environments to run the server in\<close>

text \<open>
  In \<open>demo_env\<close> the batch call rejects a batch of three texts and answers every other
  batch without embeddings; the single-item call rejects one text and embeds every other;
  the index has no vectors. In \<open>failing_env\<close> the index cannot be queried.
\<close>

definition demo_env :: "int env" where
  "demo_env =
     \<lparr>batchEmbedContents = (\<lambda>log batch.
        if length batch = 3 then Inl (Error (js ''503 Service Unavailable''))
        else Inr (Some \<lparr>embeddings_of = Some []\<rparr>)),
      embedContent = (\<lambda>log t.
        if t = js ''the second chunk'' then Inl (Error (js ''400 Bad Request''))
        else Inr (Some \<lparr>embedding_of = Some [int (length t)]\<rparr>)),
      index_query = (\<lambda>log q. Inr \<lparr>matches = Some []\<rparr>),
      index_deleteMany = (\<lambda>log ids. Inr ()),
      index_upsert = (\<lambda>log vs. Inr ()),
      fs_readFile = (\<lambda>log p. Inr []),
      fs_unlink = (\<lambda>log p. Inr ()),
      generateContent = (\<lambda>log p. Inr (js ''an answer'')),
      pdfParse = (\<lambda>data. Inr None),
      path_resolve = (\<lambda>p. js ''/srv/'' @ p),
      now_iso = (\<lambda>log i. js ''2024-01-01T00:00:00.000Z'')\<rparr>"

definition failing_env :: "int env" where
  "failing_env = demo_env\<lparr>index_query := (\<lambda>log q. Inl (Error (js ''index unreachable'')))\<rparr>"

section \<open>Code units by what cleanText does to them\<close>

text \<open>
  A code unit is stripped when one of the five classes of lines 61-65 holds it, and kept
  when it is neither stripped nor white space. A printable code unit is one that is
  neither a control character nor white space.
\<close>

definition is_stripped :: "16 word \<Rightarrow> bool" where
  "is_stripped c \<longleftrightarrow> is_control c \<or> is_general_punctuation c \<or> is_super_subscript c
     \<or> is_currency c \<or> is_letterlike c"

definition is_kept :: "16 word \<Rightarrow> bool" where
  "is_kept c \<longleftrightarrow> \<not> is_stripped c \<and> \<not> is_ws c"

definition printable :: "16 word \<Rightarrow> bool" where
  "printable c \<longleftrightarrow> \<not> is_control c \<and> \<not> is_ws c"

section \<open>Words for the answers of the embedding service\<close>

text \<open>
  The \<open>try\<close> of lines 114-128 raises when the batch call rejects, when it resolves to
  \<open>undefined\<close>, and when the array of embeddings is not empty and has a \<open>null\<close> entry. It
  takes the \<open>else\<close> of line 126 when the field \<open>embeddings\<close> is absent or empty.
\<close>

definition batch_raises :: "error + 'n batch_response option \<Rightarrow> bool" where
  "batch_raises reply =
     (case reply of
        Inl e \<Rightarrow> True
      | Inr None \<Rightarrow> True
      | Inr (Some result) \<Rightarrow>
          (case embeddings_of result of None \<Rightarrow> False | Some es \<Rightarrow> es \<noteq> [] \<and> None \<in> set es))"

definition batch_without_embeddings :: "error + 'n batch_response option \<Rightarrow> bool" where
  "batch_without_embeddings reply =
     (case reply of
        Inr (Some result) \<Rightarrow> (case embeddings_of result of None \<Rightarrow> True | Some es \<Rightarrow> es = [])
      | _ \<Rightarrow> False)"

text \<open>
  The values a single-item call gives for a text, after the events \<open>log\<close>: none when the
  call rejects or resolves without an embedding.
\<close>

definition single_values :: "'n env \<Rightarrow> 'n event list \<Rightarrow> jstring \<Rightarrow> 'n list option" where
  "single_values env log t =
     (case embedContent env log t of
        Inr (Some singleResult) \<Rightarrow> embedding_of singleResult
      | _ \<Rightarrow> None)"

text \<open>The batches that were sent to the batch call, read off the events.\<close>

definition batch_calls :: "'n event list \<Rightarrow> jstring list list" where
  "batch_calls log = List.map_filter (\<lambda>ev. case ev of BatchEmbedContents b \<Rightarrow> Some b | _ \<Rightarrow> None) log"

section \<open>Termination of chunkText\<close>

text \<open>
  With a step of more than zero the distance from the start offset to the end of the text
  shrinks in every pass.
\<close>

lemma chunkText_loop_returns:
  "200 < maxLen \<Longrightarrow> \<exists>r. chunkText_loop text maxLen i chunks = Some r"
proof (induction "nat (int (length text) - i)" arbitrary: i chunks rule: less_induct)
  case less
  show ?case
  proof (cases "i < int (length text)")
    case False
    then show ?thesis by (subst chunkText_loop.simps) simp
  next
    case True
    let ?c = "cleanText (slice text i (i + maxLen))"
    let ?chunks = "if ?c \<noteq> [] then chunks @ [?c] else chunks"
    have "nat (int (length text) - (i + (maxLen - 200))) < nat (int (length text) - i)"
      using True less.prems by linarith
    from less.hyps[OF this less.prems]
    obtain r where "chunkText_loop text maxLen (i + (maxLen - 200)) ?chunks = Some r"
      by blast
    with True show ?thesis
      by (subst chunkText_loop.simps) (simp add: Let_def)
  qed
qed

text \<open>
  With a step of zero or less, a start offset that is at most zero and inside the text
  stays so: no pass of the loop can be the last one.
\<close>

lemma chunkText_loop_stuck:
  assumes "chunkText_loop text maxLen i chunks = Some r"
  shows "\<not> (i < int (length text) \<and> i \<le> 0 \<and> maxLen \<le> 200)"
proof (rule chunkText_loop.raw_induct
    [where P = "\<lambda>text maxLen i chunks r. \<not> (i < int (length text) \<and> i \<le> 0 \<and> maxLen \<le> 200)",
     OF _ assms], goal_cases)
  case (1 f t m j cs y)
  show ?case
  proof
    assume inv: "j < int (length t) \<and> j \<le> 0 \<and> m \<le> 200"
    let ?c = "cleanText (slice t j (j + m))"
    from 1(2) inv
    have "f t m (j + (m - 200)) (if ?c \<noteq> [] then cs @ [?c] else cs) = Some y"
      by (simp add: Let_def)
    from 1(1)[OF this] inv show False by linarith
  qed
qed

text \<open>
  C10. \<open>chunkText(text, maxLen)\<close> returns for every text when \<open>maxLen > 200\<close>; for a text
  that is not empty and \<open>maxLen \<le> 200\<close> the start offset never passes the end of the text
  and the function does not return.
\<close>

theorem chunkText_termination:
  "(200 < maxLen \<longrightarrow> (\<exists>chunks. chunkText text maxLen = Some chunks)) \<and>
   (text \<noteq> [] \<and> maxLen \<le> 200 \<longrightarrow> chunkText text maxLen = None)"
proof (intro conjI impI)
  assume "200 < maxLen"
  then show "\<exists>chunks. chunkText text maxLen = Some chunks"
    unfolding chunkText_def by (rule chunkText_loop_returns)
next
  assume a: "text \<noteq> [] \<and> maxLen \<le> 200"
  show "chunkText text maxLen = None"
  proof (cases "chunkText text maxLen")
    case None
    then show ?thesis .
  next
    case (Some r)
    then have "chunkText_loop text maxLen 0 [] = Some r"
      by (simp add: chunkText_def)
    from chunkText_loop_stuck[OF this] a show ?thesis by simp
  qed
qed

theorem chunkText_termination_witness:
  "(200::int) < 1000 \<and> (\<exists>chunks. chunkText (js ''abcdefghijklmnopqrst'') 1000 = Some chunks) \<and>
   js ''abcdefghijklmnopqrst'' \<noteq> [] \<and> (200::int) \<le> 200 \<and>
   chunkText (js ''abcdefghijklmnopqrst'') 200 = None"
  using chunkText_termination[of 1000 "js ''abcdefghijklmnopqrst''"]
    chunkText_termination[of 200 "js ''abcdefghijklmnopqrst''"]
  by (simp add: js_def)

section \<open>The embedding client without a valid text\<close>

text \<open>
  C6. When every text of the input cleans to the empty string (the empty list included),
  \<open>embedTexts\<close> throws the error of line 101 and no event is added: neither embedding
  call is made.
\<close>

theorem embedTexts_no_valid_input:
  "\<forall>t \<in> set texts. cleanText t = [] \<Longrightarrow>
     embedTexts env texts log = (Inl (Error (js ''No valid text chunks after cleaning'')), log)"
proof -
  assume "\<forall>t \<in> set texts. cleanText t = []"
  then have "filter (\<lambda>t. length t > 0) (map cleanText texts) = []"
    by (simp add: filter_empty_conv)
  then show ?thesis by (simp add: embedTexts_def)
qed

theorem embedTexts_no_valid_input_witness:
  "cleanText (js ''too short'') = [] \<and> cleanText [] = [] \<and>
   embedTexts demo_env [js ''too short'', []] [] =
     (Inl (Error (js ''No valid text chunks after cleaning'')), [])"
proof -
  have c: "cleanText (js ''too short'') = []" "cleanText [] = []"
    by code_simp+
  then have h: "\<forall>t \<in> set [js ''too short'', []]. cleanText t = []"
    by simp
  from embedTexts_no_valid_input[OF h, of demo_env "[]"] c show ?thesis by blast
qed

section \<open>The vector records of an upload\<close>

text \<open>
  C9. \<open>build_vectors\<close> gives as many records as the shorter of the chunks and the
  embeddings has entries; record \<open>i\<close> holds embedding \<open>i\<close> and chunk \<open>i\<close>, the id
  \<open>sessionId_i\<close>, the file name, the index \<open>i\<close>, the session id and the time stamp.
\<close>

theorem build_vectors_aligned:
  "length (build_vectors now sessionId original validChunks embeddings)
     = min (length validChunks) (length embeddings) \<and>
   (\<forall>i < min (length validChunks) (length embeddings).
      build_vectors now sessionId original validChunks embeddings ! i =
        \<lparr>vec_id = sessionId @ js ''_'' @ decimal i,
         vec_values = embeddings ! i,
         vec_metadata = \<lparr>md_text = Some (validChunks ! i), md_source = original,
            chunk_index = i, session_id = sessionId, uploaded_at = now i\<rparr>\<rparr>)"
  by (simp add: build_vectors_def Let_def nth_enumerate_eq at_index_def min.commute)

theorem build_vectors_aligned_witness:
  "build_vectors (\<lambda>i. js ''T'') (js ''S1'') (js ''a.pdf'')
      [js ''chunk zero'', js ''chunk one'', js ''chunk two''] [[1::int, 2], [3, 4]]
   = [\<lparr>vec_id = js ''S1_0'', vec_values = [1, 2],
       vec_metadata = \<lparr>md_text = Some (js ''chunk zero''), md_source = js ''a.pdf'',
          chunk_index = 0, session_id = js ''S1'', uploaded_at = js ''T''\<rparr>\<rparr>,
      \<lparr>vec_id = js ''S1_1'', vec_values = [3, 4],
       vec_metadata = \<lparr>md_text = Some (js ''chunk one''), md_source = js ''a.pdf'',
          chunk_index = 1, session_id = js ''S1'', uploaded_at = js ''T''\<rparr>\<rparr>]"
proof -
  let ?v = "build_vectors (\<lambda>i. js ''T'') (js ''S1'') (js ''a.pdf'')
      [js ''chunk zero'', js ''chunk one'', js ''chunk two''] [[1::int, 2], [3, 4]]"
  from build_vectors_aligned[of "\<lambda>i. js ''T''" "js ''S1''" "js ''a.pdf''"
      "[js ''chunk zero'', js ''chunk one'', js ''chunk two'']" "[[1::int, 2], [3, 4]]"]
  have len: "length ?v = 2" and
    el: "\<forall>i<2. ?v ! i = \<lparr>vec_id = js ''S1'' @ js ''_'' @ decimal i,
         vec_values = [[1::int, 2], [3, 4]] ! i,
         vec_metadata = \<lparr>md_text = Some ([js ''chunk zero'', js ''chunk one'', js ''chunk two''] ! i), md_source = js ''a.pdf'',
            chunk_index = i, session_id = js ''S1'', uploaded_at = js ''T''\<rparr>\<rparr>"
    by simp_all
  from el have "?v ! 0 = \<lparr>vec_id = js ''S1_0'', vec_values = [1, 2],
       vec_metadata = \<lparr>md_text = Some (js ''chunk zero''), md_source = js ''a.pdf'',
          chunk_index = 0, session_id = js ''S1'', uploaded_at = js ''T''\<rparr>\<rparr>"
    by (simp add: js_def decimal.simps)
  moreover from el have "?v ! 1 = \<lparr>vec_id = js ''S1_1'', vec_values = [3, 4],
       vec_metadata = \<lparr>md_text = Some (js ''chunk one''), md_source = js ''a.pdf'',
          chunk_index = 1, session_id = js ''S1'', uploaded_at = js ''T''\<rparr>\<rparr>"
    by (simp add: js_def decimal.simps)
  ultimately show ?thesis using len
    by (simp add: list_eq_iff_nth_eq less_2_cases_iff)
qed

section \<open>A question without matches\<close>

text \<open>
  C8. When the request has a question and a session id, the question cleans to a text that
  is not empty, the question is embedded and the query scoped to the session resolves
  without matches (the field absent or empty), \<open>/api/ask\<close> answers 200 with the fixed
  text and no sources. The events of the request are the embedding call and the query: the
  generation service is not called.
\<close>

theorem ask_without_matches:
  assumes "question req = Some q" "q \<noteq> []"
    and "ask_sessionId req = Some sessionId" "sessionId \<noteq> []"
    and "cleanText q \<noteq> []"
    and "embedContent env log (cleanText q) = Inr (Some r)" "embedding_of r = Some qEmb"
    and "index_query env (log @ [EmbedContent (cleanText q)])
           \<lparr>q_vector = qEmb, q_topK = (case topK req of None \<Rightarrow> 4 | Some k \<Rightarrow> k),
            q_includeMetadata = True, q_filter_session_id = sessionId\<rparr> = Inr queryResp"
    and "matches queryResp = None \<or> matches queryResp = Some []"
  shows "ask_route env req log =
     (Json 200 (AnswerBody no_information [] None),
      log @ [EmbedContent (cleanText q),
             IndexQuery \<lparr>q_vector = qEmb, q_topK = (case topK req of None \<Rightarrow> 4 | Some k \<Rightarrow> k),
                q_includeMetadata = True, q_filter_session_id = sessionId\<rparr>])"
  using assms
  by (auto simp: ask_route_def ask_try_def bind_io_def call_def return_io_def Let_def)

theorem ask_without_matches_witness:
  "ask_route demo_env \<lparr>question = Some (js ''What is the document about?''),
       ask_sessionId = Some (js ''S2''), topK = None\<rparr> [] =
     (Json 200 (AnswerBody no_information [] None),
      [EmbedContent (js ''What is the document about?''),
       IndexQuery \<lparr>q_vector = [27], q_topK = 4, q_includeMetadata = True,
          q_filter_session_id = js ''S2''\<rparr>])"
proof -
  have c: "cleanText (js ''What is the document about?'') = js ''What is the document about?''"
    by code_simp
  have n: "js ''What is the document about?'' \<noteq> []" "js ''S2'' \<noteq> []"
    by (simp_all add: js_def)
  have l: "int (length (js ''What is the document about?'')) = 27"
    by (simp add: js_def)
  have ne: "js ''What is the document about?'' \<noteq> js ''the second chunk''"
    by (simp add: js_def)
  show ?thesis
    using ask_without_matches[of "\<lparr>question = Some (js ''What is the document about?''),
       ask_sessionId = Some (js ''S2''), topK = None\<rparr>" "js ''What is the document about?''"
       "js ''S2''" demo_env "[]" "\<lparr>embedding_of = Some [27]\<rparr>" "[27]" "\<lparr>matches = Some []\<rparr>"]
      c n l ne
    by (simp add: demo_env_def)
qed

section \<open>Deleting the stale vectors of a session\<close>

text \<open>No step of the server removes an event: every computation extends the events.\<close>

lemma embed_single_extends: "prefix (fst st) (fst (embed_single env st t))"
  by (cases st) (auto split: sum.splits option.splits)

lemma embed_individually_extends: "prefix (fst st) (fst (embed_individually env st batch))"
  unfolding embed_individually_def
proof (induction batch arbitrary: st)
  case Nil
  then show ?case by simp
next
  case (Cons t batch)
  have "prefix (fst st) (fst (embed_single env st t))"
    by (rule embed_single_extends)
  also have "prefix \<dots> (fst (foldl (embed_single env) (embed_single env st t) batch))"
    by (rule Cons.IH)
  finally show ?case by simp
qed

lemma embed_batch_extends: "prefix (fst st) (fst (embed_batch env st batch))"
proof -
  obtain log a where st: "st = (log, a)" by (cases st)
  have "prefix log (fst (embed_individually env (log @ [BatchEmbedContents batch], a) batch))"
    using embed_individually_extends[of "(log @ [BatchEmbedContents batch], a)" env batch]
    by (auto dest: append_prefixD)
  then show ?thesis
    by (auto simp: embed_batch_def st Let_def split: sum.splits option.splits)
qed

lemma embed_loop_extends: "prefix (fst st) (fst (embed_loop env cleanedTexts i st))"
proof (induction env cleanedTexts i st rule: embed_loop.induct)
  case (1 env cleanedTexts i st)
  show ?case
  proof (cases "i < length cleanedTexts")
    case False
    then show ?thesis by (subst embed_loop.simps) simp
  next
    case True
    let ?b = "take 10 (drop i cleanedTexts)"
    let ?st' = "embed_batch env st ?b"
    let ?st'' = "if i + 10 < length cleanedTexts then (fst ?st' @ [Delay 100], snd ?st') else ?st'"
    have "prefix (fst st) (fst ?st')" by (rule embed_batch_extends)
    also have "prefix (fst ?st') (fst ?st'')" by simp
    also have "prefix (fst ?st'') (fst (embed_loop env cleanedTexts (i + 10) ?st''))"
      by (rule 1[OF True refl refl refl])
    finally show ?thesis using True
      by (subst embed_loop.simps) (simp add: Let_def)
  qed
qed

lemma embedTexts_extends: "prefix log (snd (embedTexts env texts log))"
  using embed_loop_extends[of "(log, [])" env "filter (\<lambda>t. length t > 0) (map cleanText texts)" 0]
  by (auto simp: embedTexts_def Let_def split: prod.splits)

lemma upsert_loop_extends: "prefix log (snd (upsert_loop env vectors i log))"
proof (induction env vectors i log rule: upsert_loop.induct)
  case (1 env vectors i log)
  show ?case
  proof (cases "i < length vectors")
    case False
    then show ?thesis by (subst upsert_loop.simps) simp
  next
    case True
    let ?b = "take 100 (drop i vectors)"
    show ?thesis
    proof (cases "index_upsert env log ?b")
      case (Inl e)
      with True show ?thesis by (subst upsert_loop.simps) (simp add: Let_def)
    next
      case (Inr u)
      from 1[OF True refl Inr]
      have "prefix (log @ [IndexUpsert ?b]) (snd (upsert_loop env vectors (i + 100) (log @ [IndexUpsert ?b])))" .
      then have "prefix log (snd (upsert_loop env vectors (i + 100) (log @ [IndexUpsert ?b])))"
        by (rule append_prefixD)
      with True Inr show ?thesis by (subst upsert_loop.simps) (simp add: Let_def)
    qed
  qed
qed

lemma unlink_extends: "prefix log (snd (unlink env p log))"
  by (simp add: unlink_def call_def)

lemma bind_io_extends:
  assumes "\<And>l. prefix l (snd (m l))" and "\<And>a l. prefix l (snd (f a l))"
  shows "prefix log (snd (bind_io m f log))"
proof (cases "m log")
  case (Pair r log')
  from assms(1)[of log] Pair have p: "prefix log log'" by simp
  show ?thesis
  proof (cases r)
    case (Inl e)
    with Pair p show ?thesis by (simp add: bind_io_def)
  next
    case (Inr a)
    from p assms(2)[of log' a] have "prefix log (snd (f a log'))"
      by (rule prefix_order.trans)
    with Pair Inr show ?thesis by (simp add: bind_io_def)
  qed
qed

lemma return_io_extends: "prefix log (snd (return_io a log))"
  by (simp add: return_io_def)

lemma upload_chunks_extends: "prefix log (snd (upload_chunks env f sessionId filePath chunks log))"
  unfolding upload_chunks_def Let_def
  by (auto intro!: bind_io_extends unlink_extends return_io_extends embedTexts_extends
      upsert_loop_extends)

lemma upload_catch_extends: "prefix log (snd (upload_catch env req err log))"
  by (auto simp: upload_catch_def unlink_extends split: option.splits)

lemma deleteSessionVectors_returns:
  "\<exists>log'. deleteSessionVectors env sessionId log = (Inr (), log')"
  by (cases "deleteSessionVectors_try env sessionId log")
     (auto simp: deleteSessionVectors_def catch_io_def return_io_def split: sum.splits)

lemma chunkText_returns_1000: "\<exists>chunks. chunkText t 1000 = Some chunks"
  unfolding chunkText_def by (rule chunkText_loop_returns) simp

lemma upload_session_reads_file:
  assumes d: "deleteSessionVectors env sessionId log = (Inr (), log_d)"
  shows "\<exists>r log'. upload_session env f sessionId log = Some (r, log') \<and>
           prefix (log_d @ [ReadFile (path_resolve env (file_path f))]) log'"
proof -
  let ?p = "path_resolve env (file_path f)"
  let ?log1 = "log_d @ [ReadFile ?p]"
  let ?m = "bind_io (deleteSessionVectors env sessionId)
             (\<lambda>u. bind_io (call (\<lambda>log. fs_readFile env log ?p) (ReadFile ?p))
                (\<lambda>data log. (pdfParse env data, log))) log"
  have m: "\<exists>r. ?m = (r, ?log1)"
    using d by (auto simp: bind_io_def call_def split: sum.splits)
  then obtain r where r: "?m = (r, ?log1)" ..
  show ?thesis
  proof (cases r)
    case (Inl e)
    with r show ?thesis by (simp add: upload_session_def Let_def)
  next
    case (Inr pdfText)
    let ?text = "case pdfText of None \<Rightarrow> [] | Some t \<Rightarrow> t"
    show ?thesis
    proof (cases "trim ?text = []")
      case True
      have "prefix ?log1 (snd (bind_io (unlink env ?p)
              (\<lambda>u. return_io (Json 400 (ErrorBody (js ''PDF contains no readable text content.'')))) ?log1))"
        by (rule bind_io_extends) (rule unlink_extends return_io_extends)+
      with r Inr True show ?thesis
        by (cases "bind_io (unlink env ?p)
              (\<lambda>u. return_io (Json 400 (ErrorBody (js ''PDF contains no readable text content.'')))) ?log1")
           (simp add: upload_session_def Let_def)
    next
      case False
      obtain chunks where c: "chunkText ?text 1000 = Some chunks"
        using chunkText_returns_1000 by blast
      have "prefix ?log1 (snd (upload_chunks env f sessionId ?p chunks ?log1))"
        by (rule upload_chunks_extends)
      with r Inr False c show ?thesis
        by (cases "upload_chunks env f sessionId ?p chunks ?log1")
           (simp add: upload_session_def Let_def)
    qed
  qed
qed

text \<open>
  C7. \<open>deleteSessionVectors\<close> returns normally for every session id, whatever the query
  and the deletions answer. An upload with a file and a session id therefore goes on: the
  next event after those of the deletion is the reading of the uploaded file, and the
  route answers.
\<close>

theorem deleteSessionVectors_failure_not_propagated:
  "(\<exists>log'. deleteSessionVectors env sessionId log = (Inr (), log')) \<and>
   (req_file req = Some f \<and> body_sessionId req = Some sessionId \<and> sessionId \<noteq> [] \<longrightarrow>
      (\<exists>res log'. upload_route env req log = Some (res, log') \<and>
         prefix (snd (deleteSessionVectors env sessionId log)
                   @ [ReadFile (path_resolve env (file_path f))]) log'))"
proof (intro conjI impI)
  show "\<exists>log'. deleteSessionVectors env sessionId log = (Inr (), log')"
    by (rule deleteSessionVectors_returns)
next
  assume a: "req_file req = Some f \<and> body_sessionId req = Some sessionId \<and> sessionId \<noteq> []"
  obtain log_d where d: "deleteSessionVectors env sessionId log = (Inr (), log_d)"
    using deleteSessionVectors_returns by blast
  from upload_session_reads_file[OF d, of f]
  obtain r log1 where u: "upload_session env f sessionId log = Some (r, log1)"
    and p: "prefix (log_d @ [ReadFile (path_resolve env (file_path f))]) log1"
    by blast
  show "\<exists>res log'. upload_route env req log = Some (res, log') \<and>
         prefix (snd (deleteSessionVectors env sessionId log)
                   @ [ReadFile (path_resolve env (file_path f))]) log'"
  proof (cases r)
    case (Inr res)
    with a u p d show ?thesis
      by (simp add: upload_route_def upload_try_def)
  next
    case (Inl err)
    have "prefix log1 (snd (upload_catch env req err log1))"
      by (rule upload_catch_extends)
    with p have "prefix (log_d @ [ReadFile (path_resolve env (file_path f))])
        (snd (upload_catch env req err log1))"
      by (rule prefix_order.trans)
    with a u d Inl show ?thesis
      by (cases "upload_catch env req err log1") (simp add: upload_route_def upload_try_def)
  qed
qed

theorem deleteSessionVectors_failure_not_propagated_witness:
  "index_query failing_env [] (session_query (js ''S1'')) = Inl (Error (js ''index unreachable'')) \<and>
   deleteSessionVectors failing_env (js ''S1'') [] = (Inr (), [IndexQuery (session_query (js ''S1''))]) \<and>
   (\<exists>res log'. upload_route failing_env
        \<lparr>req_file = Some \<lparr>file_path = js ''uploads/ab12'', originalname = js ''a.pdf''\<rparr>,
         body_sessionId = Some (js ''S1'')\<rparr> [] = Some (res, log') \<and>
      prefix [IndexQuery (session_query (js ''S1'')), ReadFile (js ''/srv/uploads/ab12'')] log')"
proof -
  have q: "index_query failing_env [] (session_query (js ''S1'')) = Inl (Error (js ''index unreachable''))"
    by (simp add: failing_env_def)
  have d: "deleteSessionVectors failing_env (js ''S1'') [] = (Inr (), [IndexQuery (session_query (js ''S1''))])"
    by (simp add: deleteSessionVectors_def deleteSessionVectors_try_def catch_io_def bind_io_def
        call_def return_io_def q)
  have p: "path_resolve failing_env (js ''uploads/ab12'') = js ''/srv/uploads/ab12''"
    by (simp add: failing_env_def demo_env_def js_def)
  have n: "js ''S1'' \<noteq> []" by (simp add: js_def)
  from deleteSessionVectors_failure_not_propagated[of failing_env "js ''S1''" "[]"
      "\<lparr>req_file = Some \<lparr>file_path = js ''uploads/ab12'', originalname = js ''a.pdf''\<rparr>,
         body_sessionId = Some (js ''S1'')\<rparr>" "\<lparr>file_path = js ''uploads/ab12'', originalname = js ''a.pdf''\<rparr>"]
    q d p n show ?thesis by simp
qed

section \<open>The temporary file of an upload\<close>

text \<open>
  Once the request has passed the two checks of lines 203-210, every way out of the
  handler unlinks the temporary file: the returns of lines 223, 238 and 269 do it
  themselves, and every thrown error reaches the \<open>catch\<close>, which does it.
\<close>

lemma bind_io_unlinked:
  assumes m: "\<And>l. prefix l (snd (m l))"
    and f: "\<And>a l. case f a l of (Inl e, l') \<Rightarrow> prefix l l'
                              | (Inr r, l') \<Rightarrow> \<exists>xs. l' = l @ xs \<and> u \<in> set xs"
  shows "case bind_io m f log of (Inl e, l') \<Rightarrow> prefix log l'
                               | (Inr r, l') \<Rightarrow> \<exists>xs. l' = log @ xs \<and> u \<in> set xs"
proof (cases "m log")
  case (Pair r1 l1)
  from m[of log] Pair obtain ys where l1: "l1 = log @ ys" by (auto simp: prefix_def)
  show ?thesis
  proof (cases r1)
    case (Inl e)
    with Pair l1 show ?thesis by (simp add: bind_io_def)
  next
    case (Inr a)
    obtain r2 l2 where fa: "f a l1 = (r2, l2)" by (cases "f a l1")
    show ?thesis
    proof (cases r2)
      case (Inl e)
      with f[where a=a and l=l1] fa have "prefix l1 l2" by simp
      with l1 have "prefix log l2" by (auto simp: prefix_def)
      with Pair Inr fa Inl show ?thesis by (simp add: bind_io_def)
    next
      case r: (Inr r)
      with f[where a=a and l=l1] fa obtain xs where "l2 = l1 @ xs" "u \<in> set xs" by auto
      with l1 have "l2 = log @ (ys @ xs)" "u \<in> set (ys @ xs)" by simp_all
      then have "\<exists>zs. l2 = log @ zs \<and> u \<in> set zs" by blast
      with Pair Inr fa r show ?thesis by (simp add: bind_io_def)
    qed
  qed
qed

lemma unlink_then_return:
  "case bind_io (unlink env p) (\<lambda>u. return_io r) log of
     (Inl e, l') \<Rightarrow> prefix log l'
   | (Inr r, l') \<Rightarrow> \<exists>xs. l' = log @ xs \<and> Unlink p \<in> set xs"
  by (cases "fs_unlink env log p") (simp_all add: bind_io_def unlink_def call_def return_io_def)

lemma upload_chunks_unlinked:
  "case upload_chunks env f sessionId p chunks log of
     (Inl e, l') \<Rightarrow> prefix log l'
   | (Inr r, l') \<Rightarrow> \<exists>xs. l' = log @ xs \<and> Unlink p \<in> set xs"
proof (cases "length (filter (\<lambda>chunk. chunk \<noteq> [] \<and> trim chunk \<noteq> []) chunks) = 0")
  case True
  show ?thesis
    unfolding upload_chunks_def Let_def
    by (subst if_P[OF True]) (rule unlink_then_return)
next
  case False
  show ?thesis
    unfolding upload_chunks_def Let_def
    apply (subst if_not_P[OF False])
    apply (rule bind_io_unlinked)
     apply (rule embedTexts_extends)
    apply (rule bind_io_unlinked)
     apply (rule upsert_loop_extends)
    apply (rule unlink_then_return)
    done
qed

lemma unlinked_lift:
  assumes "prefix log l1"
    and "case X of (Inl e, l') \<Rightarrow> prefix l1 l'
                 | (Inr r, l') \<Rightarrow> \<exists>xs. l' = l1 @ xs \<and> u \<in> set xs"
  shows "case X of (Inl e, l') \<Rightarrow> prefix log l'
                 | (Inr r, l') \<Rightarrow> \<exists>xs. l' = log @ xs \<and> u \<in> set xs"
proof -
  from assms(1) obtain ys where l1: "l1 = log @ ys" by (auto simp: prefix_def)
  obtain r l' where X: "X = (r, l')" by (cases X)
  show ?thesis
  proof (cases r)
    case (Inl e)
    with assms(2) X have "prefix l1 l'" by simp
    with assms(1) have "prefix log l'" by (rule prefix_order.trans)
    with X Inl show ?thesis by simp
  next
    case (Inr res)
    with assms(2) X obtain xs where "l' = l1 @ xs" "u \<in> set xs" by auto
    with l1 have "l' = log @ (ys @ xs)" "u \<in> set (ys @ xs)" by simp_all
    then have "\<exists>zs. l' = log @ zs \<and> u \<in> set zs" by blast
    with X Inr show ?thesis by simp
  qed
qed

lemma delete_loop_extends: "prefix log (snd (delete_loop env vectorIds i log))"
proof (induction env vectorIds i log rule: delete_loop.induct)
  case (1 env vectorIds i log)
  show ?case
  proof (cases "i < length vectorIds")
    case False
    then show ?thesis by (subst delete_loop.simps) simp
  next
    case True
    let ?b = "take 1000 (drop i vectorIds)"
    show ?thesis
    proof (cases "index_deleteMany env log ?b")
      case (Inl e)
      with True show ?thesis by (subst delete_loop.simps) (simp add: Let_def)
    next
      case (Inr u)
      from 1[OF True refl Inr]
      have "prefix (log @ [IndexDeleteMany ?b])
          (snd (delete_loop env vectorIds (i + 1000) (log @ [IndexDeleteMany ?b])))" .
      then have "prefix log (snd (delete_loop env vectorIds (i + 1000) (log @ [IndexDeleteMany ?b])))"
        by (rule append_prefixD)
      with True Inr show ?thesis by (subst delete_loop.simps) (simp add: Let_def)
    qed
  qed
qed

lemma deleteSessionVectors_extends: "prefix log (snd (deleteSessionVectors env sessionId log))"
proof -
  have t: "prefix l (snd (deleteSessionVectors_try env sessionId l))" for l
    unfolding deleteSessionVectors_try_def
    by (rule bind_io_extends)
       (auto simp: call_def return_io_def delete_loop_extends split: option.splits)
  obtain r l' where x: "deleteSessionVectors_try env sessionId log = (r, l')"
    by (cases "deleteSessionVectors_try env sessionId log")
  with t[of log] have "prefix log l'" by simp
  with x show ?thesis
    by (cases r) (simp_all add: deleteSessionVectors_def catch_io_def return_io_def)
qed

lemma upload_session_unlinked:
  "\<exists>r l'. upload_session env f sessionId log = Some (r, l') \<and> prefix log l' \<and>
     (case r of Inl e \<Rightarrow> True
      | Inr res \<Rightarrow> \<exists>xs. l' = log @ xs \<and> Unlink (path_resolve env (file_path f)) \<in> set xs)"
proof -
  let ?p = "path_resolve env (file_path f)"
  obtain log_d where d: "deleteSessionVectors env sessionId log = (Inr (), log_d)"
    using deleteSessionVectors_returns by blast
  with deleteSessionVectors_extends[of log env sessionId] have pd: "prefix log log_d" by simp
  let ?log1 = "log_d @ [ReadFile ?p]"
  from pd have p1: "prefix log ?log1" by (auto simp: prefix_def)
  let ?m = "bind_io (deleteSessionVectors env sessionId)
             (\<lambda>u. bind_io (call (\<lambda>log. fs_readFile env log ?p) (ReadFile ?p))
                (\<lambda>data log. (pdfParse env data, log))) log"
  have "\<exists>r. ?m = (r, ?log1)"
    using d by (auto simp: bind_io_def call_def split: sum.splits)
  then obtain r0 where r0: "?m = (r0, ?log1)" ..
  have fin: ?thesis if x: "upload_session env f sessionId log = Some X"
    and c: "case X of (Inl e, l') \<Rightarrow> prefix ?log1 l'
                 | (Inr r, l') \<Rightarrow> \<exists>xs. l' = ?log1 @ xs \<and> Unlink ?p \<in> set xs" for X
  proof -
    from unlinked_lift[OF p1 c]
    have c': "case X of (Inl e, l') \<Rightarrow> prefix log l'
                 | (Inr r, l') \<Rightarrow> \<exists>xs. l' = log @ xs \<and> Unlink ?p \<in> set xs" .
    obtain r l' where X: "X = (r, l')" by (cases X)
    with c' x show ?thesis by (cases r) auto
  qed
  show ?thesis
  proof (cases r0)
    case (Inl e)
    with r0 p1 show ?thesis by (simp add: upload_session_def Let_def)
  next
    case (Inr pdfText)
    let ?text = "case pdfText of None \<Rightarrow> [] | Some t \<Rightarrow> t"
    show ?thesis
    proof (cases "trim ?text = []")
      case True
      with r0 Inr show ?thesis
        by (intro fin[OF _ unlink_then_return]) (simp add: upload_session_def Let_def)
    next
      case False
      obtain chunks where "chunkText ?text 1000 = Some chunks"
        using chunkText_returns_1000 by blast
      with r0 Inr False show ?thesis
        by (intro fin[OF _ upload_chunks_unlinked]) (simp add: upload_session_def Let_def)
    qed
  qed
qed

lemma upload_with_session_unlinks:
  assumes "req_file req = Some f" "file_path f \<noteq> []"
    and "body_sessionId req = Some sessionId" "sessionId \<noteq> []"
  shows "\<exists>res log' xs. upload_route env req log = Some (res, log') \<and> log' = log @ xs \<and>
           Unlink (path_resolve env (file_path f)) \<in> set xs"
proof -
  let ?p = "path_resolve env (file_path f)"
  from upload_session_unlinked[of env f sessionId log]
  obtain r l' where u: "upload_session env f sessionId log = Some (r, l')"
    and p: "prefix log l'"
    and c: "case r of Inl e \<Rightarrow> True | Inr res \<Rightarrow> \<exists>xs. l' = log @ xs \<and> Unlink ?p \<in> set xs"
    by blast
  from assms u have t: "upload_try env req log = Some (r, l')"
    by (simp add: upload_try_def)
  show ?thesis
  proof (cases r)
    case (Inr res)
    with t c show ?thesis by (auto simp: upload_route_def)
  next
    case (Inl err)
    from p obtain ys where "l' = log @ ys" by (auto simp: prefix_def)
    then have "snd (upload_catch env req err l') = log @ (ys @ [Unlink ?p])"
      using assms(1,2) by (simp add: upload_catch_def unlink_def call_def)
    with t Inl show ?thesis
      by (cases "upload_catch env req err l'") (auto simp: upload_route_def)
  qed
qed

text \<open>
  C3. The claim is that the temporary file is removed on every exit path that is reached
  after a file was received. The return of line 209, for a request with a file and without a
  session id, answers 400 and adds no event: the file is not unlinked.
\<close>

theorem upload_without_session_keeps_file:
  "upload_route env \<lparr>req_file = Some f, body_sessionId = None\<rparr> log =
     Some (Json 400 (ErrorBody (js ''Missing session ID'')), log) \<and>
   upload_route env \<lparr>req_file = Some f, body_sessionId = Some []\<rparr> log =
     Some (Json 400 (ErrorBody (js ''Missing session ID'')), log)"
  by (simp add: upload_route_def upload_try_def)

section \<open>Facts about the steps of cleanText\<close>

text \<open>
  A replacement of a literal pattern leaves a string without the pattern alone; a sequence
  that shares no code unit with the replacement occurs in the result only where it
  occurred before; and the pattern itself is gone from the result when it shares no code
  unit with its replacement.
\<close>

lemma prefix_Cons_split:
  assumes "prefix p (c # cs)" "p \<noteq> []"
  shows "c # cs = p @ drop (length p - 1) cs"
proof -
  from assms(1) obtain zs where z: "c # cs = p @ zs" by (auto simp: prefix_def)
  with assms(2) obtain p' where p: "p = c # p'" by (cases p) auto
  with z have "cs = p' @ zs" by simp
  with p z show ?thesis by simp
qed

lemma replaceAll_absent: "\<not> sublist p s \<Longrightarrow> replaceAll p r s = s"
proof (induction p r s rule: replaceAll.induct)
  case (1 p r)
  then show ?case by simp
next
  case (2 p r c cs)
  from 2(3) have np: "\<not> prefix p (c # cs)" and ns: "\<not> sublist p cs"
    by (auto simp: sublist_Cons_right)
  from 2(2)[OF np ns] np show ?case by simp
qed

lemma prefix_replaceAll:
  "set q \<inter> set r = {} \<Longrightarrow> r \<noteq> [] \<Longrightarrow> prefix q (replaceAll p r s) \<Longrightarrow> prefix q s"
proof (induction p r s arbitrary: q rule: replaceAll.induct)
  case (1 p r)
  then show ?case by simp
next
  case (2 p r c cs)
  show ?case
  proof (cases q)
    case Nil
    then show ?thesis by simp
  next
    case (Cons a q')
    show ?thesis
    proof (cases "prefix p (c # cs)")
      case True
      with 2(5) have "prefix q (r @ replaceAll p r (drop (length p - 1) cs))" by simp
      moreover from 2(4) obtain b r' where "r = b # r'" by (cases r) auto
      ultimately have "a = b" using Cons by simp
      with \<open>r = b # r'\<close> Cons 2(3) show ?thesis by auto
    next
      case False
      with 2(5) Cons have ac: "a = c" and "prefix q' (replaceAll p r cs)" by simp_all
      moreover from 2(3) Cons have "set q' \<inter> set r = {}" by auto
      ultimately have "prefix q' cs" using 2(2)[OF False _ 2(4)] by blast
      with ac Cons show ?thesis by simp
    qed
  qed
qed

lemma sublist_append_disjoint:
  "set q \<inter> set r = {} \<Longrightarrow> q \<noteq> [] \<Longrightarrow> sublist q (r @ t) \<Longrightarrow> sublist q t"
proof (induction r)
  case Nil
  then show ?case by simp
next
  case (Cons b r)
  from Cons.prems(3) have "prefix q (b # r @ t) \<or> sublist q (r @ t)"
    by (simp add: sublist_Cons_right)
  moreover have "\<not> prefix q (b # r @ t)"
    using Cons.prems(1,2) by (cases q) auto
  ultimately have "sublist q (r @ t)" by blast
  moreover from Cons.prems(1) have "set q \<inter> set r = {}" by auto
  ultimately show ?case using Cons.IH Cons.prems(2) by blast
qed

lemma sublist_replaceAll:
  "set q \<inter> set r = {} \<Longrightarrow> r \<noteq> [] \<Longrightarrow> sublist q (replaceAll p r s) \<Longrightarrow> sublist q s"
proof (induction p r s rule: replaceAll.induct)
  case (1 p r)
  then show ?case by simp
next
  case (2 p r c cs)
  show ?case
  proof (cases "q = []")
    case True
    then show ?thesis by simp
  next
    case qne: False
    show ?thesis
    proof (cases "prefix p (c # cs)")
      case True
      with 2(5) have "sublist q (r @ replaceAll p r (drop (length p - 1) cs))" by simp
      with 2(3) qne have "sublist q (replaceAll p r (drop (length p - 1) cs))"
        by (rule sublist_append_disjoint)
      with 2(1)[OF True 2(3) 2(4)] have "sublist q (drop (length p - 1) cs)" by blast
      moreover have "sublist (drop (length p - 1) cs) (c # cs)"
        by (meson sublist_Cons_right sublist_drop)
      ultimately show ?thesis by (rule sublist_order.order.trans)
    next
      case False
      with 2(5) have "prefix q (c # replaceAll p r cs) \<or> sublist q (replaceAll p r cs)"
        by (simp add: sublist_Cons_right)
      then show ?thesis
      proof
        assume "sublist q (replaceAll p r cs)"
        with 2(2)[OF False 2(3) 2(4)] show ?thesis by (simp add: sublist_Cons_right)
      next
        assume pq: "prefix q (c # replaceAll p r cs)"
        from qne obtain a q' where q: "q = a # q'" by (cases q) auto
        with pq have "a = c" "prefix q' (replaceAll p r cs)" by simp_all
        moreover from 2(3) q have "set q' \<inter> set r = {}" by auto
        ultimately have "prefix q' cs" using prefix_replaceAll[OF _ 2(4)] by blast
        with \<open>a = c\<close> q show ?thesis by (simp add: sublist_Cons_right)
      qed
    qed
  qed
qed

lemma replaceAll_removes:
  "set p \<inter> set r = {} \<Longrightarrow> r \<noteq> [] \<Longrightarrow> p \<noteq> [] \<Longrightarrow> \<not> sublist p (replaceAll p r s)"
proof (induction p r s rule: replaceAll.induct)
  case (1 p r)
  then show ?case by simp
next
  case (2 p r c cs)
  show ?case
  proof (cases "prefix p (c # cs)")
    case True
    show ?thesis
    proof
      assume "sublist p (replaceAll p r (c # cs))"
      with True have "sublist p (r @ replaceAll p r (drop (length p - 1) cs))" by simp
      with 2(3) 2(5) have "sublist p (replaceAll p r (drop (length p - 1) cs))"
        by (rule sublist_append_disjoint)
      with 2(1)[OF True 2(3) 2(4) 2(5)] show False by blast
    qed
  next
    case False
    show ?thesis
    proof
      assume "sublist p (replaceAll p r (c # cs))"
      with False have "prefix p (c # replaceAll p r cs) \<or> sublist p (replaceAll p r cs)"
        by (simp add: sublist_Cons_right)
      then show False
      proof
        assume "sublist p (replaceAll p r cs)"
        with 2(2)[OF False 2(3) 2(4) 2(5)] show False by blast
      next
        assume pq: "prefix p (c # replaceAll p r cs)"
        define R where "R = replaceAll p r cs"
        from pq have pR: "prefix p (c # R)" by (simp add: R_def)
        from 2(5) obtain a p' where p: "p = a # p'" by (cases p) auto
        with pR have "a = c" "prefix p' R" by simp_all
        moreover from 2(3) p have "set p' \<inter> set r = {}" by auto
        ultimately have "prefix p' cs"
          using prefix_replaceAll[OF _ 2(4), of p' p cs] by (simp add: R_def)
        with \<open>a = c\<close> p False show False by simp
      qed
    qed
  qed
qed

text \<open>
  The replacement of a class and the collapse of white space put spaces only, so a
  sequence without a space, or without white space, occurs in the result only where it
  occurred before. A collapsed string has no white space but single spaces, which makes
  it a fixed point of the collapse; trimming twice is trimming once.
\<close>

lemma is_ws_SP: "is_ws SP"
  by (simp add: is_ws_def SP_def)

lemma set_replaceClass:
  "c \<in> set (replaceClass cls s) \<Longrightarrow> c = SP \<or> (c \<in> set s \<and> \<not> cls c)"
  by (auto simp: replaceClass_def split: if_splits)

lemma replaceClass_absent: "\<forall>c \<in> set s. \<not> cls c \<Longrightarrow> replaceClass cls s = s"
  by (simp add: replaceClass_def map_idI)

lemma sublist_replaceClass:
  assumes "SP \<notin> set q" "sublist q (replaceClass cls s)"
  shows "sublist q s"
proof -
  define f where "f = (\<lambda>c. if cls c then SP else c)"
  from assms(2) obtain ps ss where "map f s = ps @ q @ ss"
    by (auto simp: sublist_def replaceClass_def f_def)
  then obtain ps' vs where s1: "s = ps' @ vs" and "map f vs = q @ ss"
    by (metis map_eq_append_conv)
  then obtain q' ss' where s2: "vs = q' @ ss'" and q: "map f q' = q"
    by (metis map_eq_append_conv)
  have "map f q' = q'"
  proof (rule map_idI)
    fix c assume "c \<in> set q'"
    then have "f c \<in> set q" using q by auto
    with assms(1) show "f c = c" by (auto simp: f_def split: if_splits)
  qed
  with q have "q' = q" by simp
  with s1 s2 show ?thesis by (auto simp: sublist_def)
qed

lemma set_collapse_ws:
  "c \<in> set (collapse_ws s) \<Longrightarrow> c = SP \<or> (c \<in> set s \<and> \<not> is_ws c)"
proof (induction s rule: collapse_ws.induct)
  case 1
  then show ?case by simp
next
  case (2 d ds)
  then show ?case
    by (auto split: if_splits dest: set_dropWhileD)
qed

lemma prefix_collapse_ws:
  "\<forall>c \<in> set q. \<not> is_ws c \<Longrightarrow> prefix q (collapse_ws s) \<Longrightarrow> prefix q s"
proof (induction s arbitrary: q rule: collapse_ws.induct)
  case 1
  then show ?case by simp
next
  case (2 d ds)
  show ?case
  proof (cases q)
    case Nil
    then show ?thesis by simp
  next
    case (Cons a q')
    show ?thesis
    proof (cases "is_ws d")
      case True
      with 2(4) Cons have "a = SP" by simp
      with 2(3) Cons is_ws_SP show ?thesis by simp
    next
      case False
      with 2(4) Cons have "a = d" "prefix q' (collapse_ws ds)" by simp_all
      moreover from 2(3) Cons have "\<forall>c \<in> set q'. \<not> is_ws c" by simp
      ultimately show ?thesis using 2(2)[OF False] Cons by simp
    qed
  qed
qed

lemma sublist_collapse_ws:
  "\<forall>c \<in> set q. \<not> is_ws c \<Longrightarrow> sublist q (collapse_ws s) \<Longrightarrow> sublist q s"
proof (induction s rule: collapse_ws.induct)
  case 1
  then show ?case by simp
next
  case (2 d ds)
  show ?case
  proof (cases "is_ws d")
    case True
    with 2(4) have "prefix q (SP # collapse_ws (dropWhile is_ws ds)) \<or>
        sublist q (collapse_ws (dropWhile is_ws ds))"
      by (simp add: sublist_Cons_right)
    then show ?thesis
    proof
      assume "prefix q (SP # collapse_ws (dropWhile is_ws ds))"
      with 2(3) is_ws_SP have "q = []" by (cases q) auto
      then show ?thesis by simp
    next
      assume "sublist q (collapse_ws (dropWhile is_ws ds))"
      with 2(1)[OF True 2(3)] have "sublist q (dropWhile is_ws ds)" by blast
      then have "sublist q ds"
        by (rule sublist_order.order.trans) simp
      then show ?thesis by (simp add: sublist_Cons_right)
    qed
  next
    case False
    with 2(4) have "prefix q (d # collapse_ws ds) \<or> sublist q (collapse_ws ds)"
      by (simp add: sublist_Cons_right)
    then show ?thesis
    proof
      assume "sublist q (collapse_ws ds)"
      with 2(2)[OF False 2(3)] show ?thesis by (simp add: sublist_Cons_right)
    next
      assume "prefix q (d # collapse_ws ds)"
      with False have "prefix q (collapse_ws (d # ds))" by simp
      with 2(3) have "prefix q (d # ds)" by (rule prefix_collapse_ws)
      then show ?thesis by (simp add: sublist_Cons_right)
    qed
  qed
qed

lemma collapse_ws_head:
  "collapse_ws s = [] \<or> \<not> is_ws (hd s) \<and> s \<noteq> [] \<and> hd (collapse_ws s) = hd s \<or> hd (collapse_ws s) = SP \<and> s \<noteq> [] \<and> is_ws (hd s)"
  by (cases s) auto

lemma no_double_space_collapse_ws: "\<not> sublist [SP, SP] (collapse_ws s)"
proof (induction s rule: collapse_ws.induct)
  case 1
  then show ?case by simp
next
  case (2 d ds)
  show ?case
  proof (cases "is_ws d")
    case True
    define t where "t = dropWhile is_ws ds"
    have "\<not> prefix [SP] (collapse_ws t)"
    proof (cases t)
      case Nil
      then show ?thesis by simp
    next
      case (Cons e es)
      then have "\<not> is_ws e"
        unfolding t_def by (metis hd_dropWhile list.sel(1) list.distinct(1))
      with Cons is_ws_SP show ?thesis by auto
    qed
    with 2(1)[OF True] True show ?thesis
      by (simp add: sublist_Cons_right t_def)
  next
    case False
    with is_ws_SP have "d \<noteq> SP" by auto
    with 2(2)[OF False] False show ?thesis
      by (simp add: sublist_Cons_right)
  qed
qed

lemma collapse_ws_fixed:
  "\<forall>c \<in> set s. is_ws c \<longrightarrow> c = SP \<Longrightarrow> \<not> sublist [SP, SP] s \<Longrightarrow> collapse_ws s = s"
proof (induction s)
  case Nil
  then show ?case by simp
next
  case (Cons d ds)
  from Cons.prems have ih: "collapse_ws ds = ds"
    by (intro Cons.IH) (auto simp: sublist_Cons_right)
  show ?case
  proof (cases "is_ws d")
    case False
    with ih show ?thesis by simp
  next
    case True
    with Cons.prems(1) have d: "d = SP" by simp
    have "dropWhile is_ws ds = ds"
    proof (cases ds)
      case Nil
      then show ?thesis by simp
    next
      case (Cons e es)
      with Cons.prems(2) d have "e \<noteq> SP" by (auto simp: sublist_Cons_right)
      with Cons.prems(1) Cons have "\<not> is_ws e" by auto
      with Cons show ?thesis by simp
    qed
    with True d ih show ?thesis by simp
  qed
qed

lemma sublist_trim: "sublist (trim s) s"
proof -
  have "sublist (dropWhile is_ws (rev (dropWhile is_ws s))) (rev (dropWhile is_ws s))"
    by simp
  then have "sublist (trim s) (dropWhile is_ws s)"
    by (simp add: trim_def sublist_rev_left)
  then show ?thesis
    by (rule sublist_order.order.trans) simp
qed

lemma trim_idem: "trim (trim s) = trim s"
proof -
  define t where "t = dropWhile is_ws s"
  define u where "u = rev (dropWhile is_ws (rev t))"
  have "suffix (dropWhile is_ws (rev t)) (rev t)"
    by (rule suffix_dropWhile)
  then have pu: "prefix u t"
    by (simp add: suffix_to_prefix u_def)
  have "dropWhile is_ws u = u"
  proof (cases u)
    case Nil
    then show ?thesis by simp
  next
    case (Cons a u')
    with pu obtain t' where t: "t = a # t'" by (cases t) auto
    then have "\<not> is_ws a"
      unfolding t_def by (metis hd_dropWhile list.sel(1) list.distinct(1))
    with Cons show ?thesis by simp
  qed
  then have "trim u = rev (dropWhile is_ws (rev u))"
    by (simp add: trim_def)
  also have "\<dots> = u" by (simp add: u_def)
  finally show ?thesis by (simp add: trim_def u_def t_def)
qed

section \<open>What a cleaned text looks like\<close>

text \<open>
  The result of the chain of lines 53-68 has no stripped code unit, no white space but
  single spaces, and neither the sequence replaced first nor the one replaced last.
\<close>

lemma SP_not_stripped: "\<not> is_stripped SP"
  by (simp add: is_stripped_def is_control_def is_general_punctuation_def is_super_subscript_def
      is_currency_def is_letterlike_def SP_def)

lemma sublist_cleaned_tail:
  assumes "SP \<notin> set q" "\<forall>c \<in> set q. \<not> is_ws c"
    and "sublist q (trim (collapse_ws (replaceClass is_letterlike (replaceClass is_currency
           (replaceClass is_super_subscript (replaceClass is_general_punctuation
           (replaceClass is_control s)))))))"
  shows "sublist q s"
proof -
  from assms(3) have "sublist q (collapse_ws (replaceClass is_letterlike (replaceClass is_currency
           (replaceClass is_super_subscript (replaceClass is_general_punctuation
           (replaceClass is_control s))))))"
    by (rule sublist_order.order.trans) (rule sublist_trim)
  with assms(2) have "sublist q (replaceClass is_letterlike (replaceClass is_currency
           (replaceClass is_super_subscript (replaceClass is_general_punctuation
           (replaceClass is_control s)))))"
    by (rule sublist_collapse_ws)
  with assms(1) have "sublist q (replaceClass is_currency
           (replaceClass is_super_subscript (replaceClass is_general_punctuation
           (replaceClass is_control s))))"
    by (rule sublist_replaceClass)
  with assms(1) have "sublist q (replaceClass is_super_subscript
           (replaceClass is_general_punctuation (replaceClass is_control s)))"
    by (rule sublist_replaceClass)
  with assms(1) have "sublist q (replaceClass is_general_punctuation (replaceClass is_control s))"
    by (rule sublist_replaceClass)
  with assms(1) have "sublist q (replaceClass is_control s)"
    by (rule sublist_replaceClass)
  with assms(1) show ?thesis
    by (rule sublist_replaceClass)
qed

lemma cleaned_no_degrees: "\<not> sublist pat_degrees (cleaned x)"
proof
  assume a: "sublist pat_degrees (cleaned x)"
  have a5: "sublist pat_degrees (replaceAll pat_sqrt (js ''sqrt '')
       (replaceAll pat_pi (js ''pi '')
       (replaceAll pat_triangle (js ''triangle '')
       (replaceAll pat_angle (js ''angle '')
       (replaceAll pat_degrees (js '' degrees '') x)))))"
    by (rule sublist_cleaned_tail[OF _ _ a[unfolded cleaned_def]])
       (simp_all add: pat_degrees_def SP_def is_ws_def)
  have a4: "sublist pat_degrees (replaceAll pat_pi (js ''pi '')
       (replaceAll pat_triangle (js ''triangle '')
       (replaceAll pat_angle (js ''angle '')
       (replaceAll pat_degrees (js '' degrees '') x))))"
    by (rule sublist_replaceAll[OF _ _ a5]) (simp_all add: pat_degrees_def js_def)
  have a3: "sublist pat_degrees (replaceAll pat_triangle (js ''triangle '')
       (replaceAll pat_angle (js ''angle '')
       (replaceAll pat_degrees (js '' degrees '') x)))"
    by (rule sublist_replaceAll[OF _ _ a4]) (simp_all add: pat_degrees_def js_def)
  have a2: "sublist pat_degrees (replaceAll pat_angle (js ''angle '')
       (replaceAll pat_degrees (js '' degrees '') x))"
    by (rule sublist_replaceAll[OF _ _ a3]) (simp_all add: pat_degrees_def js_def)
  have a1: "sublist pat_degrees (replaceAll pat_degrees (js '' degrees '') x)"
    by (rule sublist_replaceAll[OF _ _ a2]) (simp_all add: pat_degrees_def js_def)
  moreover have "\<not> sublist pat_degrees (replaceAll pat_degrees (js '' degrees '') x)"
    by (rule replaceAll_removes) (simp_all add: pat_degrees_def js_def)
  ultimately show False by blast
qed

lemma cleaned_no_sqrt: "\<not> sublist pat_sqrt (cleaned x)"
proof
  assume a: "sublist pat_sqrt (cleaned x)"
  have "sublist pat_sqrt (replaceAll pat_sqrt (js ''sqrt '')
       (replaceAll pat_pi (js ''pi '')
       (replaceAll pat_triangle (js ''triangle '')
       (replaceAll pat_angle (js ''angle '')
       (replaceAll pat_degrees (js '' degrees '') x)))))"
    by (rule sublist_cleaned_tail[OF _ _ a[unfolded cleaned_def]])
       (simp_all add: pat_sqrt_def SP_def is_ws_def)
  moreover have "\<not> sublist pat_sqrt (replaceAll pat_sqrt (js ''sqrt '')
       (replaceAll pat_pi (js ''pi '')
       (replaceAll pat_triangle (js ''triangle '')
       (replaceAll pat_angle (js ''angle '')
       (replaceAll pat_degrees (js '' degrees '') x)))))"
    by (rule replaceAll_removes) (simp_all add: pat_sqrt_def js_def)
  ultimately show False by blast
qed

lemma cleaned_not_stripped:
  assumes "c \<in> set (cleaned x)"
  shows "\<not> is_stripped c"
proof -
  define s5 where "s5 = replaceAll pat_sqrt (js ''sqrt '')
       (replaceAll pat_pi (js ''pi '')
       (replaceAll pat_triangle (js ''triangle '')
       (replaceAll pat_angle (js ''angle '')
       (replaceAll pat_degrees (js '' degrees '') x))))"
  define s6 where "s6 = replaceClass is_control s5"
  define s7 where "s7 = replaceClass is_general_punctuation s6"
  define s8 where "s8 = replaceClass is_super_subscript s7"
  define s9 where "s9 = replaceClass is_currency s8"
  define s10 where "s10 = replaceClass is_letterlike s9"
  have sp: "\<not> is_control SP" "\<not> is_general_punctuation SP" "\<not> is_super_subscript SP"
    "\<not> is_currency SP" "\<not> is_letterlike SP"
    using SP_not_stripped by (auto simp: is_stripped_def)
  have c6: "\<not> is_control d" if "d \<in> set s6" for d
    using set_replaceClass[OF that[unfolded s6_def]] sp by auto
  have c7: "\<not> is_control d \<and> \<not> is_general_punctuation d" if "d \<in> set s7" for d
    using set_replaceClass[OF that[unfolded s7_def]] sp c6 by auto
  have c8: "\<not> is_control d \<and> \<not> is_general_punctuation d \<and> \<not> is_super_subscript d"
    if "d \<in> set s8" for d
    using set_replaceClass[OF that[unfolded s8_def]] sp c7 by auto
  have c9: "\<not> is_control d \<and> \<not> is_general_punctuation d \<and> \<not> is_super_subscript d
      \<and> \<not> is_currency d" if "d \<in> set s9" for d
    using set_replaceClass[OF that[unfolded s9_def]] sp c8 by auto
  have c10: "\<not> is_stripped d" if "d \<in> set s10" for d
    using set_replaceClass[OF that[unfolded s10_def]] sp c9 by (auto simp: is_stripped_def)
  have "cleaned x = trim (collapse_ws s10)"
    by (simp add: cleaned_def s10_def s9_def s8_def s7_def s6_def s5_def)
  with assms have "c \<in> set (collapse_ws s10)"
    using set_mono_sublist[OF sublist_trim] by auto
  then have "c = SP \<or> c \<in> set s10"
    using set_collapse_ws by blast
  with c10 SP_not_stripped show ?thesis by auto
qed

lemma cleaned_ws:
  assumes "c \<in> set (cleaned x)" "is_ws c"
  shows "c = SP"
proof -
  from assms(1) obtain s where "c \<in> set (trim (collapse_ws s))"
    by (auto simp: cleaned_def)
  then have "c \<in> set (collapse_ws s)"
    using set_mono_sublist[OF sublist_trim] by auto
  with assms(2) show ?thesis
    using set_collapse_ws by blast
qed

lemma cleaned_no_double_space: "\<not> sublist [SP, SP] (cleaned x)"
proof
  assume a: "sublist [SP, SP] (cleaned x)"
  obtain s where s: "cleaned x = trim (collapse_ws s)"
    by (auto simp: cleaned_def)
  from a have "sublist [SP, SP] (collapse_ws s)"
    unfolding s by (rule sublist_order.order.trans) (rule sublist_trim)
  with no_double_space_collapse_ws show False by blast
qed

text \<open>
  The sequences of \<open>triangle\<close> and \<open>pi\<close> end in a stripped code unit, so they are gone
  as well. Only the sequence of \<open>angle\<close>, which ends in a space, can be left in a
  cleaned text: the space may come from a later step. Without it the cleaned text is a
  fixed point of the chain.
\<close>

lemma cleaned_fixed:
  assumes "\<not> sublist pat_angle (cleaned x)"
  shows "cleaned (cleaned x) = cleaned x"
proof -
  define y where "y = cleaned x"
  have ns: "\<not> is_stripped c" if "c \<in> set y" for c
    using that cleaned_not_stripped by (simp add: y_def)
  have "0x2020 \<notin> set y"
    using ns[of "0x2020"] by (auto simp: is_stripped_def is_general_punctuation_def)
  then have tri: "\<not> sublist pat_triangle y"
    using set_mono_sublist[of pat_triangle y] by (auto simp: pat_triangle_def)
  have "0x20AC \<notin> set y"
    using ns[of "0x20AC"] by (auto simp: is_stripped_def is_currency_def)
  then have pi: "\<not> sublist pat_pi y"
    using set_mono_sublist[of pat_pi y] by (auto simp: pat_pi_def)
  have r: "replaceAll pat_sqrt (js ''sqrt '')
       (replaceAll pat_pi (js ''pi '')
       (replaceAll pat_triangle (js ''triangle '')
       (replaceAll pat_angle (js ''angle '')
       (replaceAll pat_degrees (js '' degrees '') y)))) = y"
    using cleaned_no_degrees[of x] assms tri pi cleaned_no_sqrt[of x]
    by (simp add: replaceAll_absent y_def[symmetric])
  have cl: "replaceClass is_letterlike (replaceClass is_currency
       (replaceClass is_super_subscript (replaceClass is_general_punctuation
       (replaceClass is_control y)))) = y"
    using ns by (simp add: replaceClass_absent is_stripped_def)
  have co: "collapse_ws y = y"
    by (rule collapse_ws_fixed) (auto simp: y_def cleaned_ws cleaned_no_double_space)
  have tr: "trim y = y"
    unfolding y_def cleaned_def by (rule trim_idem)
  have "cleaned y = y"
    unfolding cleaned_def[of y] by (simp only: r cl co tr)
  then show ?thesis by (simp add: y_def)
qed

section \<open>Idempotence of cleanText\<close>

text \<open>
  Cleaning twice can differ from cleaning once through the sequence of line 56 only: when
  the cleaned text is not cut by the cap of 8000 and the result does not hold
  U+00E2 U+02C6 U+0020, cleaning the result again gives the result.
\<close>

lemma cleanText_idempotent_without_angle:
  assumes "length (cleaned x) \<le> 8000" and "\<not> sublist pat_angle (cleanText x)"
  shows "cleanText (cleanText x) = cleanText x"
proof (cases "cleanText x = []")
  case True
  then show ?thesis by (simp add: cleanText_def)
next
  case False
  with assms(1) have y: "cleanText x = cleaned x" and l: "10 \<le> length (cleaned x)"
    by (auto simp: cleanText_def split: if_splits)
  from assms(2) y have "cleaned (cleaned x) = cleaned x"
    by (simp add: cleaned_fixed)
  with l assms(1) False y show ?thesis
    by (simp add: cleanText_def[of "cleaned x"])
qed

text \<open>
  C4. The text normalizer is to be idempotent on every input that the cap does not cut:
  cleaning the result again is to give the result. The code is not. A mis-decoded angle
  sign is U+00E2 U+02C6 U+00A0, as the other four patterns are the mis-decodings of their
  signs, but the pattern of line 56 ends in U+0020. On the mis-decoded angle sign the
  pattern does not match in the first pass; the collapse of white space turns the
  no-break space into a space, and in the second pass the pattern matches. Nothing is cut
  by the cap.
\<close>

theorem cleanText_not_idempotent:
  "length (cleaned ([0xE2, 0x2C6, 0xA0] @ js ''ABC is 90'')) \<le> 8000 \<and>
   cleanText ([0xE2, 0x2C6, 0xA0] @ js ''ABC is 90'') = [0xE2, 0x2C6, 0x20] @ js ''ABC is 90'' \<and>
   cleanText (cleanText ([0xE2, 0x2C6, 0xA0] @ js ''ABC is 90'')) = js ''angle ABC is 90'' \<and>
   cleanText (cleanText ([0xE2, 0x2C6, 0xA0] @ js ''ABC is 90''))
     \<noteq> cleanText ([0xE2, 0x2C6, 0xA0] @ js ''ABC is 90'')"
  by code_simp

text \<open>
  An upload runs both passes: \<open>chunkText\<close> cleans every window (line 83) and \<open>embedTexts\<close>
  cleans the chunks again (line 97). The text sent to the embedding service is then not
  the chunk that is stored with the vector.
\<close>

lemma upload_embeds_recleaned_chunk:
  "chunkText ([0xE2, 0x2C6, 0xA0] @ js ''ABC is 90'') 1000
     = Some [[0xE2, 0x2C6, 0x20] @ js ''ABC is 90''] \<and>
   snd (embedTexts demo_env [[0xE2, 0x2C6, 0x20] @ js ''ABC is 90''] [])
     = [BatchEmbedContents [js ''angle ABC is 90'']]"
  by code_simp

section \<open>Texts with ten code units that cleanText keeps\<close>

text \<open>
  No step of the chain lowers the number of kept code units: each of the five sequences
  holds at most as many as its replacement, and the other steps touch stripped code units
  and white space only.
\<close>

lemma kept_replaceAll:
  "length (filter is_kept p) \<le> length (filter is_kept r) \<Longrightarrow> p \<noteq> [] \<Longrightarrow>
     length (filter is_kept s) \<le> length (filter is_kept (replaceAll p r s))"
proof (induction p r s rule: replaceAll.induct)
  case (1 p r)
  then show ?case by simp
next
  case (2 p r c cs)
  show ?case
  proof (cases "prefix p (c # cs)")
    case True
    from prefix_Cons_split[OF True 2(4)]
    have "filter is_kept (c # cs) = filter is_kept p @ filter is_kept (drop (length p - 1) cs)"
      by (metis filter_append)
    then have "length (filter is_kept (c # cs))
        = length (filter is_kept p) + length (filter is_kept (drop (length p - 1) cs))"
      by simp
    also have "\<dots> \<le> length (filter is_kept r)
        + length (filter is_kept (replaceAll p r (drop (length p - 1) cs)))"
      using 2(1)[OF True 2(3) 2(4)] 2(3) by simp
    finally show ?thesis using True by simp
  next
    case False
    with 2(2)[OF False 2(3) 2(4)] show ?thesis by simp
  qed
qed

lemma kept_replaceClass:
  "(\<And>c. cls c \<Longrightarrow> is_stripped c) \<Longrightarrow> filter is_kept (replaceClass cls s) = filter is_kept s"
proof (induction s)
  case Nil
  then show ?case by (simp add: replaceClass_def)
next
  case (Cons d ds)
  have "\<not> is_kept SP" using is_ws_SP by (simp add: is_kept_def)
  moreover have "\<not> is_kept d" if "cls d"
    using Cons.prems[OF that] by (simp add: is_kept_def)
  ultimately show ?case using Cons by (simp add: replaceClass_def)
qed

lemma kept_dropWhile_ws: "filter is_kept (dropWhile is_ws s) = filter is_kept s"
  by (induction s) (auto simp: is_kept_def)

lemma kept_collapse_ws: "filter is_kept (collapse_ws s) = filter is_kept s"
proof (induction s rule: collapse_ws.induct)
  case 1
  then show ?case by simp
next
  case (2 d ds)
  show ?case
  proof (cases "is_ws d")
    case True
    then have "\<not> is_kept d" "\<not> is_kept SP"
      using is_ws_SP by (simp_all add: is_kept_def)
    with 2(1)[OF True] True show ?thesis by (simp add: kept_dropWhile_ws)
  next
    case False
    with 2(2)[OF False] show ?thesis by simp
  qed
qed

lemma kept_trim: "filter is_kept (trim s) = filter is_kept s"
proof -
  have "filter is_kept (trim s) = rev (filter is_kept (dropWhile is_ws (rev (dropWhile is_ws s))))"
    by (simp add: trim_def rev_filter)
  also have "\<dots> = rev (filter is_kept (rev (dropWhile is_ws s)))"
    by (simp only: kept_dropWhile_ws)
  also have "\<dots> = filter is_kept (dropWhile is_ws s)"
    by (simp add: rev_filter)
  finally show ?thesis by (simp only: kept_dropWhile_ws)
qed

lemma kept_patterns:
  "length (filter is_kept pat_degrees) \<le> length (filter is_kept (js '' degrees ''))"
  "length (filter is_kept pat_angle) \<le> length (filter is_kept (js ''angle ''))"
  "length (filter is_kept pat_triangle) \<le> length (filter is_kept (js ''triangle ''))"
  "length (filter is_kept pat_pi) \<le> length (filter is_kept (js ''pi ''))"
  "length (filter is_kept pat_sqrt) \<le> length (filter is_kept (js ''sqrt ''))"
  by code_simp+

lemma kept_cleaned: "length (filter is_kept t) \<le> length (filter is_kept (cleaned t))"
proof -
  define s1 where "s1 = replaceAll pat_degrees (js '' degrees '') t"
  define s2 where "s2 = replaceAll pat_angle (js ''angle '') s1"
  define s3 where "s3 = replaceAll pat_triangle (js ''triangle '') s2"
  define s4 where "s4 = replaceAll pat_pi (js ''pi '') s3"
  define s5 where "s5 = replaceAll pat_sqrt (js ''sqrt '') s4"
  have "length (filter is_kept t) \<le> length (filter is_kept s1)"
    unfolding s1_def by (rule kept_replaceAll[OF kept_patterns(1)]) (simp add: pat_degrees_def)
  also have "\<dots> \<le> length (filter is_kept s2)"
    unfolding s2_def by (rule kept_replaceAll[OF kept_patterns(2)]) (simp add: pat_angle_def)
  also have "\<dots> \<le> length (filter is_kept s3)"
    unfolding s3_def by (rule kept_replaceAll[OF kept_patterns(3)]) (simp add: pat_triangle_def)
  also have "\<dots> \<le> length (filter is_kept s4)"
    unfolding s4_def by (rule kept_replaceAll[OF kept_patterns(4)]) (simp add: pat_pi_def)
  also have "\<dots> \<le> length (filter is_kept s5)"
    unfolding s5_def by (rule kept_replaceAll[OF kept_patterns(5)]) (simp add: pat_sqrt_def)
  also have "filter is_kept s5 = filter is_kept (cleaned t)"
    unfolding cleaned_def s5_def s4_def s3_def s2_def s1_def
    by (simp add: kept_trim kept_collapse_ws kept_replaceClass is_stripped_def)
  finally show ?thesis .
qed

text \<open>
  C5, amended. For every text with at least 10 code units that are neither stripped
  (control characters and the blocks U+2000 to U+20CF and U+2100 to U+214F) nor white
  space, the result of \<open>cleanText\<close> is not empty and holds no control character.
\<close>

theorem cleanText_ten_kept:
  assumes "10 \<le> length (filter is_kept t)"
  shows "cleanText t \<noteq> [] \<and> list_all (\<lambda>c. \<not> is_control c) (cleanText t)"
proof -
  have "length (filter is_kept (cleaned t)) \<le> length (cleaned t)"
    by (rule length_filter_le)
  with kept_cleaned[of t] assms have l: "10 \<le> length (cleaned t)" by linarith
  from assms have ne: "t \<noteq> []" by auto
  from l ne have "cleanText t \<noteq> []"
    by (auto simp: cleanText_def)
  moreover have "\<not> is_control c" if "c \<in> set (cleanText t)" for c
  proof -
    from that have "c \<in> set (cleaned t)"
      by (auto simp: cleanText_def split: if_splits dest: in_set_takeD)
    then show ?thesis using cleaned_not_stripped by (auto simp: is_stripped_def)
  qed
  ultimately show ?thesis by (simp add: list_all_iff)
qed

theorem cleanText_ten_kept_witness:
  "10 \<le> length (filter is_kept (js ''Area: 12 cm'' @ [0x0A, 0x2014] @ js '' done'')) \<and>
   cleanText (js ''Area: 12 cm'' @ [0x0A, 0x2014] @ js '' done'') \<noteq> [] \<and>
   list_all (\<lambda>c. \<not> is_control c) (cleanText (js ''Area: 12 cm'' @ [0x0A, 0x2014] @ js '' done''))"
proof -
  have h: "10 \<le> length (filter is_kept (js ''Area: 12 cm'' @ [0x0A, 0x2014] @ js '' done''))"
    by code_simp
  from cleanText_ten_kept[OF h] h show ?thesis by simp
qed

text \<open>
  C5 as stated fails: ten euro signs (U+20AC) are ten printable code units, and line 64
  turns each of them into a space, so the result is empty.
\<close>

theorem cleanText_ten_printable_empty:
  "10 \<le> length (filter printable (replicate 10 0x20AC)) \<and> cleanText (replicate 10 0x20AC) = []"
  by code_simp

section \<open>The chunks of a text that fits one window\<close>

text \<open>
  The first window of a text of at most \<open>maxLen\<close> code units is the whole text. The loop
  goes on while the start offset is inside the text, so a text longer than the step
  \<open>maxLen - 200\<close> is cut a second time, from the step to its end.
\<close>

lemma slice_whole: "int (length t) \<le> m \<Longrightarrow> slice t 0 m = t"
  by (auto simp: slice_def slice_index_def Let_def)

lemma slice_tail: "0 \<le> i \<Longrightarrow> int (length t) \<le> i + m \<Longrightarrow> slice t i (i + m) = drop (nat i) t"
  by (auto simp: slice_def slice_index_def Let_def min_def)

lemma chunkText_one_window:
  assumes a: "int (length t) \<le> maxLen - 200"
  shows "chunkText t maxLen = Some (filter (\<lambda>c. c \<noteq> []) [cleanText t])"
proof (cases "t = []")
  case True
  then show ?thesis
    unfolding chunkText_def by (subst chunkText_loop.simps) (simp add: cleanText_def)
next
  case False
  with a have w: "slice t 0 (0 + maxLen) = t" by (simp add: slice_whole)
  have stop: "\<not> 0 + (maxLen - 200) < int (length t)" using a by simp
  show ?thesis
    unfolding chunkText_def
    apply (subst chunkText_loop.simps)
    apply (subst chunkText_loop.simps)
    using False w stop by (simp add: Let_def)
qed

lemma chunkText_two_windows:
  assumes a: "400 \<le> maxLen" "maxLen - 200 < int (length t)" "int (length t) \<le> maxLen"
  shows "chunkText t maxLen =
    Some (filter (\<lambda>c. c \<noteq> []) [cleanText t, cleanText (drop (nat (maxLen - 200)) t)])"
proof -
  from a have ne: "0 < int (length t)" by linarith
  from a have w: "slice t 0 (0 + maxLen) = t" by (simp add: slice_whole)
  from a have w2: "slice t (0 + (maxLen - 200)) (0 + (maxLen - 200) + maxLen)
      = drop (nat (maxLen - 200)) t"
    using slice_tail[of "maxLen - 200" t maxLen] by simp
  from a have go: "0 + (maxLen - 200) < int (length t)" by simp
  from a have stop: "\<not> 0 + (maxLen - 200) + (maxLen - 200) < int (length t)" by linarith
  show ?thesis
    unfolding chunkText_def
    apply (subst chunkText_loop.simps)
    apply (subst chunkText_loop.simps)
    apply (subst chunkText_loop.simps)
    using ne w w2 go stop by (simp add: Let_def)
qed

lemma cleaned_plain:
  assumes "\<forall>c \<in> set s. is_kept c \<and> c \<noteq> 0xC2 \<and> c \<noteq> 0xE2 \<and> c \<noteq> 0xCF"
  shows "cleaned s = s"
proof -
  have p: "\<not> sublist pat_degrees s" "\<not> sublist pat_angle s" "\<not> sublist pat_triangle s"
    "\<not> sublist pat_pi s" "\<not> sublist pat_sqrt s"
    using assms set_mono_sublist[of _ s]
    by (fastforce simp: pat_degrees_def pat_angle_def pat_triangle_def pat_pi_def pat_sqrt_def)+
  have r: "replaceAll pat_sqrt (js ''sqrt '')
       (replaceAll pat_pi (js ''pi '')
       (replaceAll pat_triangle (js ''triangle '')
       (replaceAll pat_angle (js ''angle '')
       (replaceAll pat_degrees (js '' degrees '') s)))) = s"
    using p by (simp add: replaceAll_absent)
  have cl: "replaceClass is_letterlike (replaceClass is_currency
       (replaceClass is_super_subscript (replaceClass is_general_punctuation
       (replaceClass is_control s)))) = s"
    using assms by (simp add: replaceClass_absent is_kept_def is_stripped_def)
  have nw: "\<forall>c \<in> set s. \<not> is_ws c"
    using assms by (simp add: is_kept_def)
  have "SP \<notin> set s" using nw is_ws_SP by auto
  then have "\<not> sublist [SP, SP] s"
    using set_mono_sublist[of "[SP, SP]" s] by auto
  with nw have co: "collapse_ws s = s"
    by (intro collapse_ws_fixed) auto
  have dw: "dropWhile is_ws u = u" if "\<forall>c \<in> set u. \<not> is_ws c" for u
    using that by (cases u) auto
  have tr: "trim s = s"
    using nw by (simp add: trim_def dw)
  show ?thesis
    unfolding cleaned_def by (simp only: r cl co tr)
qed

lemma cleanText_letters:
  assumes "10 \<le> n" "n \<le> 8000"
  shows "cleanText (replicate n 0x61) = replicate n 0x61"
proof -
  have "is_kept (0x61::16 word)"
    by (simp add: is_kept_def is_stripped_def is_control_def is_general_punctuation_def
        is_super_subscript_def is_currency_def is_letterlike_def is_ws_def)
  then have "cleaned (replicate n 0x61) = replicate n 0x61"
    by (intro cleaned_plain) auto
  with assms show ?thesis by (auto simp: cleanText_def)
qed

text \<open>
  C2, amended. A text of at most \<open>maxLen - 200\<close> code units gives one chunk, its cleaned
  text, which is dropped when it is empty. A text of more than \<open>maxLen - 200\<close> and at most
  \<open>maxLen\<close> code units gives, for \<open>maxLen\<close> of 400 or more, a second chunk as well: the
  cleaned text of its tail from offset \<open>maxLen - 200\<close>, dropped when that is empty.
\<close>

theorem chunkText_short_text:
  "(int (length t) \<le> maxLen - 200 \<longrightarrow>
      chunkText t maxLen = Some (filter (\<lambda>c. c \<noteq> []) [cleanText t])) \<and>
   (400 \<le> maxLen \<and> maxLen - 200 < int (length t) \<and> int (length t) \<le> maxLen \<longrightarrow>
      chunkText t maxLen =
        Some (filter (\<lambda>c. c \<noteq> []) [cleanText t, cleanText (drop (nat (maxLen - 200)) t)]))"
  using chunkText_one_window chunkText_two_windows by blast

theorem chunkText_short_text_witness:
  "int (length (js ''A short note.'')) \<le> 1000 - 200 \<and>
   chunkText (js ''A short note.'') 1000 = Some [js ''A short note.''] \<and>
   (400::int) \<le> 1000 \<and> 1000 - 200 < int (length (replicate 900 (0x61::16 word))) \<and>
   int (length (replicate 900 (0x61::16 word))) \<le> 1000 \<and>
   chunkText (replicate 900 0x61) 1000 = Some [replicate 900 0x61, replicate 100 0x61]"
proof -
  have c: "cleanText (js ''A short note.'') = js ''A short note.''"
    by code_simp
  have n: "js ''A short note.'' \<noteq> []" "int (length (js ''A short note.'')) \<le> 1000 - 200"
    by (simp_all add: js_def)
  have l: "cleanText (replicate 900 0x61) = replicate 900 0x61"
    "cleanText (replicate 100 0x61) = replicate 100 0x61"
    by (simp_all add: cleanText_letters)
  from chunkText_short_text[of "js ''A short note.''" 1000]
    chunkText_short_text[of "replicate 900 0x61" 1000] c n l
  show ?thesis by simp
qed

text \<open>
  C2 as stated fails: a text of 900 letters is shorter than the \<open>maxLen\<close> of 1000 the
  upload route passes, and it is cut into two chunks, the second one its last 100 letters.
\<close>

theorem chunkText_two_chunks:
  "int (length (replicate 900 (0x61::16 word))) \<le> 1000 \<and>
   chunkText (replicate 900 0x61) 1000 = Some [replicate 900 0x61, replicate 100 0x61]"
proof -
  have l: "cleanText (replicate 900 0x61) = replicate 900 0x61"
    "cleanText (replicate 100 0x61) = replicate 100 0x61"
    by (simp_all add: cleanText_letters)
  from chunkText_two_windows[of 1000 "replicate 900 0x61"] l
  show ?thesis by simp
qed

section \<open>A batch that the embedding service does not answer\<close>

text \<open>
  The individual pass calls the single-item operation once for every text of the batch,
  in order, and pushes the values of the calls that succeed.
\<close>

lemma embed_single_values:
  "embed_single env (log, a) t =
     (log @ [EmbedContent t], a @ (case single_values env log t of None \<Rightarrow> [] | Some v \<Rightarrow> [v]))"
  by (simp add: single_values_def split: sum.splits option.splits)

lemma embed_individually_values:
  "embed_individually env (log, a) batch =
     (log @ map EmbedContent batch,
      a @ List.map_filter
            (\<lambda>k. single_values env (log @ map EmbedContent (take k batch)) (batch ! k))
            [0..<length batch])"
proof (induction batch rule: rev_induct)
  case Nil
  then show ?case by (simp add: embed_individually_def map_filter_simps)
next
  case (snoc t batch)
  let ?f = "\<lambda>b k. single_values env (log @ map EmbedContent (take k b)) (b ! k)"
  have same: "List.map_filter (?f (batch @ [t])) [0..<length batch]
      = List.map_filter (?f batch) [0..<length batch]"
    unfolding map_filter_def
    by (intro arg_cong2[where f = map] filter_cong map_cong refl) (simp_all add: nth_append)
  have last: "?f (batch @ [t]) (length batch) = single_values env (log @ map EmbedContent batch) t"
    by simp
  have "embed_individually env (log, a) (batch @ [t])
      = embed_single env (embed_individually env (log, a) batch) t"
    by (simp add: embed_individually_def)
  also have "\<dots> = (log @ map EmbedContent batch @ [EmbedContent t],
      a @ List.map_filter (?f batch) [0..<length batch]
        @ (case single_values env (log @ map EmbedContent batch) t of None \<Rightarrow> [] | Some v \<Rightarrow> [v]))"
    by (simp add: snoc.IH embed_single_values del: embed_single.simps)
  also have "List.map_filter (?f batch) [0..<length batch]
        @ (case single_values env (log @ map EmbedContent batch) t of None \<Rightarrow> [] | Some v \<Rightarrow> [v])
      = List.map_filter (?f (batch @ [t])) [0..<length (batch @ [t])]"
    using same last by (simp add: map_filter_def split: option.splits)
  finally show ?case by simp
qed

lemma those_None_iff: "those es = None \<longleftrightarrow> None \<in> set es"
  by (induction es) (auto split: option.splits)

lemma those_SomeD: "those es = Some vs \<Longrightarrow> None \<notin> set es"
  using those_None_iff[of es] by simp

lemma embed_batch_raises:
  assumes "batch_raises (batchEmbedContents env log batch)"
  shows "embed_batch env (log, a) batch =
     (log @ BatchEmbedContents batch # map EmbedContent batch,
      a @ List.map_filter
            (\<lambda>k. single_values env
                    (log @ BatchEmbedContents batch # map EmbedContent (take k batch)) (batch ! k))
            [0..<length batch])"
proof -
  have "embed_batch env (log, a) batch
      = embed_individually env (log @ [BatchEmbedContents batch], a) batch"
    using assms
    by (auto simp: embed_batch_def batch_raises_def Let_def those_None_iff
        split: sum.splits option.splits dest: those_SomeD)
  then show ?thesis by (simp add: embed_individually_values)
qed

lemma embed_batch_without_embeddings:
  assumes "batch_without_embeddings (batchEmbedContents env log batch)"
  shows "embed_batch env (log, a) batch = (log @ [BatchEmbedContents batch], a)"
  using assms
  by (auto simp: embed_batch_def batch_without_embeddings_def Let_def
      split: sum.splits option.splits)

text \<open>
  Whatever the service answers, one batch costs one batch call, and the loop sends every
  batch of 10.
\<close>

lemma batch_calls_append: "batch_calls (xs @ ys) = batch_calls xs @ batch_calls ys"
  by (simp add: batch_calls_def map_filter_def)

lemma batch_calls_Cons:
  "batch_calls [] = []"
  "batch_calls (BatchEmbedContents b # xs) = b # batch_calls xs"
  "batch_calls (EmbedContent t # xs) = batch_calls xs"
  "batch_calls (Delay n # xs) = batch_calls xs"
  by (simp_all add: batch_calls_def map_filter_simps)

lemma batch_calls_singles: "batch_calls (map EmbedContent ts) = []"
  by (induction ts) (simp_all add: batch_calls_Cons)

lemma batch_calls_embed_batch:
  "batch_calls (fst (embed_batch env (log, a) batch)) = batch_calls log @ [batch]"
proof -
  have i: "batch_calls (fst (embed_individually env (log @ [BatchEmbedContents batch], a) batch))
      = batch_calls log @ [batch]"
    by (simp add: embed_individually_values batch_calls_append batch_calls_singles batch_calls_Cons)
  have o: "batch_calls (log @ [BatchEmbedContents batch]) = batch_calls log @ [batch]"
    by (simp add: batch_calls_append batch_calls_Cons)
  show ?thesis
    using i o
    by (auto simp: embed_batch_def Let_def split: sum.splits option.splits)
qed

lemma batch_calls_embed_loop:
  "batch_calls (fst (embed_loop env cleanedTexts i st)) =
     batch_calls (fst st) @
       map (\<lambda>j. take 10 (drop (i + 10 * j) cleanedTexts)) [0..<(length cleanedTexts - i + 9) div 10]"
proof (induction env cleanedTexts i st rule: embed_loop.induct)
  case (1 env cleanedTexts i st)
  show ?case
  proof (cases "i < length cleanedTexts")
    case False
    then show ?thesis by (subst embed_loop.simps) simp
  next
    case True
    let ?b = "take 10 (drop i cleanedTexts)"
    let ?st' = "embed_batch env st ?b"
    let ?st'' = "if i + 10 < length cleanedTexts then (fst ?st' @ [Delay 100], snd ?st') else ?st'"
    have b: "batch_calls (fst ?st') = batch_calls (fst st) @ [?b]"
      using batch_calls_embed_batch[of env "fst st" "snd st" ?b] by simp
    have "batch_calls (fst ?st'') = batch_calls (fst ?st')"
      by (simp add: batch_calls_append batch_calls_Cons)
    with b have b'': "batch_calls (fst ?st'') = batch_calls (fst st) @ [?b]" by simp
    have n: "(length cleanedTexts - i + 9) div 10 = Suc ((length cleanedTexts - (i + 10) + 9) div 10)"
      using True by (cases "i + 10 \<le> length cleanedTexts") auto
    have m: "map (\<lambda>j. take 10 (drop (i + 10 * j) cleanedTexts)) [0..<Suc k]
        = ?b # map (\<lambda>j. take 10 (drop (i + 10 + 10 * j) cleanedTexts)) [0..<k]" for k
      by (simp add: upt_rec[of 0] map_Suc_upt[symmetric] del: upt_Suc) (simp add: add.assoc add.commute)
    have "batch_calls (fst (embed_loop env cleanedTexts i st))
        = batch_calls (fst (embed_loop env cleanedTexts (i + 10) ?st''))"
      using True by (subst embed_loop.simps) (simp add: Let_def)
    also have "\<dots> = batch_calls (fst ?st'') @
        map (\<lambda>j. take 10 (drop (i + 10 + 10 * j) cleanedTexts))
          [0..<(length cleanedTexts - (i + 10) + 9) div 10]"
      by (rule 1[OF True refl refl refl])
    finally show ?thesis
      by (simp only: b'' n m append_assoc append_Cons append_Nil)
  qed
qed

lemma embed_loop_done: "\<not> i < length cleanedTexts \<Longrightarrow> embed_loop env cleanedTexts i st = st"
  by (subst embed_loop.simps) simp

text \<open>
  C1, amended. When the \<open>try\<close> of a batch raises (the call rejects, or the response is
  malformed: \<open>undefined\<close>, or a \<open>null\<close> entry among the embeddings), every text of the batch
  is sent to the single-item call, once and in order, and the embeddings pushed are those
  of the calls that succeed: a text whose call fails is skipped. When the response has no
  or an empty \<open>embeddings\<close> field, the batch call is the only event and nothing is pushed.
  In neither case is the operation aborted: with a valid text \<open>embedTexts\<close> returns, and
  every batch of 10 has been sent.
\<close>

theorem embed_batch_fallback:
  "(batch_raises (batchEmbedContents env log batch) \<longrightarrow>
      embed_batch env (log, allEmbeddings) batch =
        (log @ BatchEmbedContents batch # map EmbedContent batch,
         allEmbeddings @ List.map_filter
            (\<lambda>k. single_values env
                    (log @ BatchEmbedContents batch # map EmbedContent (take k batch)) (batch ! k))
            [0..<length batch])) \<and>
   (batch_without_embeddings (batchEmbedContents env log batch) \<longrightarrow>
      embed_batch env (log, allEmbeddings) batch = (log @ [BatchEmbedContents batch], allEmbeddings)) \<and>
   (filter (\<lambda>t. length t > 0) (map cleanText texts) \<noteq> [] \<longrightarrow>
      (\<exists>embs log'. embedTexts env texts log = (Inr embs, log') \<and>
         batch_calls log' = batch_calls log @
           map (\<lambda>j. take 10 (drop (10 * j) (filter (\<lambda>t. length t > 0) (map cleanText texts))))
             [0..<(length (filter (\<lambda>t. length t > 0) (map cleanText texts)) + 9) div 10]))"
proof (intro conjI impI)
  assume "batch_raises (batchEmbedContents env log batch)"
  then show "embed_batch env (log, allEmbeddings) batch =
        (log @ BatchEmbedContents batch # map EmbedContent batch,
         allEmbeddings @ List.map_filter
            (\<lambda>k. single_values env
                    (log @ BatchEmbedContents batch # map EmbedContent (take k batch)) (batch ! k))
            [0..<length batch])"
    by (rule embed_batch_raises)
next
  assume "batch_without_embeddings (batchEmbedContents env log batch)"
  then show "embed_batch env (log, allEmbeddings) batch = (log @ [BatchEmbedContents batch], allEmbeddings)"
    by (rule embed_batch_without_embeddings)
next
  define cleanedTexts where "cleanedTexts = filter (\<lambda>t. length t > 0) (map cleanText texts)"
  assume "filter (\<lambda>t. length t > 0) (map cleanText texts) \<noteq> []"
  then have ne: "cleanedTexts \<noteq> []" by (simp add: cleanedTexts_def)
  obtain log' embs where l: "embed_loop env cleanedTexts 0 (log, []) = (log', embs)"
    by (cases "embed_loop env cleanedTexts 0 (log, [])")
  from ne l have e: "embedTexts env texts log = (Inr embs, log')"
    unfolding embedTexts_def cleanedTexts_def[symmetric] by (simp add: Let_def)
  from batch_calls_embed_loop[of env cleanedTexts 0 "(log, [])"] l
  have "batch_calls log' = batch_calls log @
      map (\<lambda>j. take 10 (drop (10 * j) cleanedTexts)) [0..<(length cleanedTexts + 9) div 10]"
    by simp
  with e show "\<exists>embs log'. embedTexts env texts log = (Inr embs, log') \<and>
         batch_calls log' = batch_calls log @
           map (\<lambda>j. take 10 (drop (10 * j) (filter (\<lambda>t. length t > 0) (map cleanText texts))))
             [0..<(length (filter (\<lambda>t. length t > 0) (map cleanText texts)) + 9) div 10]"
    unfolding cleanedTexts_def by blast
qed

theorem embed_batch_fallback_witness:
  "batch_raises (batchEmbedContents demo_env []
      [js ''the first chunk'', js ''the second chunk'', js ''the third chunk'']) \<and>
   embed_batch demo_env ([], [])
      [js ''the first chunk'', js ''the second chunk'', js ''the third chunk''] =
     ([BatchEmbedContents [js ''the first chunk'', js ''the second chunk'', js ''the third chunk''],
       EmbedContent (js ''the first chunk''), EmbedContent (js ''the second chunk''),
       EmbedContent (js ''the third chunk'')],
      [[15], [15]]) \<and>
   batch_without_embeddings (batchEmbedContents demo_env [] [js ''the first chunk'']) \<and>
   embed_batch demo_env ([], []) [js ''the first chunk''] =
     ([BatchEmbedContents [js ''the first chunk'']], []) \<and>
   (\<exists>embs log'. embedTexts demo_env
       [js ''the first chunk'', js ''the second chunk'', js ''the third chunk''] [] = (Inr embs, log') \<and>
     batch_calls log' = [[js ''the first chunk'', js ''the second chunk'', js ''the third chunk'']])"
proof -
  let ?T = "[js ''the first chunk'', js ''the second chunk'', js ''the third chunk'']"
  have r: "batch_raises (batchEmbedContents demo_env [] ?T)"
    by (simp add: demo_env_def batch_raises_def)
  have w: "batch_without_embeddings (batchEmbedContents demo_env [] [js ''the first chunk''])"
    by (simp add: demo_env_def batch_without_embeddings_def)
  have v: "List.map_filter
      (\<lambda>k. single_values demo_env ([] @ BatchEmbedContents ?T # map EmbedContent (take k ?T)) (?T ! k))
      [0..<length ?T] = [[15], [15]]"
    by code_simp
  have c: "filter (\<lambda>t. length t > 0) (map cleanText ?T) = ?T"
    by code_simp
  have d: "map (\<lambda>j. take 10 (drop (10 * j) ?T)) [0..<(length ?T + 9) div 10] = [?T]"
    by code_simp
  from embed_batch_fallback[of demo_env "[]" ?T "[]" ?T]
    embed_batch_fallback[of demo_env "[]" "[js ''the first chunk'']" "[]" ?T] r w v c d
  show ?thesis by (simp add: batch_calls_Cons)
qed

text \<open>
  C1 as stated fails for the empty \<open>embeddings\<close> field. In \<open>demo_env\<close> the batch call
  answers a batch of one text with an empty array; the single-item call would embed the
  text, but it is never made, and \<open>embedTexts\<close> returns no embedding for it.
\<close>

theorem embed_batch_empty_not_retried:
  "batchEmbedContents demo_env [] [js ''the first chunk''] = Inr (Some \<lparr>embeddings_of = Some []\<rparr>) \<and>
   embedContent demo_env [BatchEmbedContents [js ''the first chunk'']] (js ''the first chunk'')
     = Inr (Some \<lparr>embedding_of = Some [15]\<rparr>) \<and>
   embedTexts demo_env [js ''the first chunk''] [] =
     (Inr [], [BatchEmbedContents [js ''the first chunk'']])"
proof -
  have c: "cleanText (js ''the first chunk'') = js ''the first chunk''"
    by code_simp
  have n: "js ''the first chunk'' \<noteq> []" "js ''the first chunk'' \<noteq> js ''the second chunk''"
    "int (length (js ''the first chunk'')) = 15"
    by (simp_all add: js_def)
  have b: "embed_batch demo_env ([], []) [js ''the first chunk'']
      = ([BatchEmbedContents [js ''the first chunk'']], [])"
    by (simp add: embed_batch_def demo_env_def)
  have "embed_loop demo_env [js ''the first chunk''] 0 ([], [])
      = ([BatchEmbedContents [js ''the first chunk'']], [])"
    by (subst embed_loop.simps) (simp add: b Let_def embed_loop_done)
  with c n show ?thesis
    by (simp add: embedTexts_def demo_env_def)
qed

end
